theory Spec2Isabelle
  imports Main "HOL-Library.Word" "HOL-Library.Signed_Division"
begin

unbundle bit_operations_syntax

section \<open>Integer helpers of the library\<close>

text \<open>
  The index type \<open>IdxType\<close> of the linewise engine is a template parameter; it is taken
  to be the 32-bit \<open>int\<close>, the default index type of the library. (The engine computes
  negative intermediate values, see \<open>alignedEnd\<close> below, so the type is signed.) A value of
  the index type is modelled by an \<open>int\<close> in the range \<open>-2^31 \<le> x < 2^31\<close>, where
  \<open>2^31 = 2147483648\<close>; \<open>idx\<close> converts an integer to the index type by wrap-around,
  which is what an addition or a multiplication in the index type yields when it
  overflows. The interface requires that \<open>rowLen * nRows\<close> does not overflow the index
  type. \<open>idx\<close> is written out where the engine computes, in the index type, a value that
  can exceed the length of the matrix by the work of a whole grid: in \<open>ceildiv\<close>, for
  \<open>elemsPerThread\<close>, for the thread offsets of the main kernel of \<open>matrixLinewiseVecCols\<close>
  and for the loop variable of \<open>vectorRows\<close>. The counters inside a chunk (\<open>rowDiv\<close>,
  \<open>rowMod\<close>, the index \<open>j\<close> of \<open>loadVec\<close>, the thread offsets of the boundary kernels)
  exceed an offset of the matrix or a row length by less than one block's chunk; they
  are computed exactly. The C++ operators \<open>/\<close> and \<open>%\<close> on the index type truncate towards
  zero: they are \<open>sdiv\<close> and \<open>smod\<close>. Values of type \<open>uint\<close> are 32-bit words. Byte
  addresses are \<open>int\<close>; \<open>sz\<close> is \<open>sizeof(Type)\<close>.
\<close>

definition idx :: "int \<Rightarrow> int" where
  "idx x = (x + 2147483648) mod 4294967296 - 2147483648"

text \<open>
  \<open>raft::ceildiv\<close> of cuda_utils.cuh, \<open>(a + b - 1) / b\<close>, at the index type (the sum is
  computed in the index type) and at \<open>uint\<close>.
\<close>

definition ceildiv :: "int \<Rightarrow> int \<Rightarrow> int" where
  "ceildiv a b = idx (a + b - 1) sdiv b"

definition ceildiv_u :: "32 word \<Rightarrow> 32 word \<Rightarrow> 32 word" where
  "ceildiv_u a b = (a + b - 1) div b"

text \<open>\<open>raft::WarpSize\<close> of cuda_utils.cuh.\<close>

definition WarpSize :: int where
  "WarpSize = 32"

text \<open>
  Modelled from the spec: \<open>raft::gcd\<close> (integer_utils.h is not among the sources); the
  greatest common divisor of two \<open>uint\<close> values.
\<close>

definition gcd_u :: "32 word \<Rightarrow> 32 word \<Rightarrow> 32 word" where
  "gcd_u a b = of_nat (gcd (unat a) (unat b))"

text \<open>
  Modelled from the spec: \<open>raft::Pow2<W>\<close> (pow2_utils.cuh is not among the sources).
  \<open>roundUp\<close> and \<open>roundDown\<close> give the nearest address at or after, at or before, the
  given one that is a multiple of \<open>W\<close> bytes; \<open>areSameAlignOffsets\<close> tells whether two
  addresses have the same remainder modulo \<open>W\<close>; \<open>Pow2_div\<close> and \<open>Pow2_mod\<close> are the
  quotient and remainder by \<open>W\<close>.
\<close>

definition roundUp :: "int \<Rightarrow> int \<Rightarrow> int" where
  "roundUp W p = ((p + W - 1) div W) * W"

definition roundDown :: "int \<Rightarrow> int \<Rightarrow> int" where
  "roundDown W p = (p div W) * W"

definition areSameAlignOffsets :: "int \<Rightarrow> int \<Rightarrow> int \<Rightarrow> bool" where
  "areSameAlignOffsets W a b = (a mod W = b mod W)"

definition Pow2_div :: "int \<Rightarrow> int \<Rightarrow> int" where
  "Pow2_div W x = x div W"

definition Pow2_mod :: "int \<Rightarrow> int \<Rightarrow> int" where
  "Pow2_mod W x = x mod W"

text \<open>
  The difference \<open>p - q\<close> of two pointers to \<open>Type\<close>, in elements. Both addresses are
  multiples of \<open>sz\<close> wherever the engine subtracts pointers, so the division is exact.
\<close>

definition ptr_diff :: "int \<Rightarrow> int \<Rightarrow> int \<Rightarrow> int" where
  "ptr_diff sz p q = (p - q) div sz"

section \<open>Kernel launches\<close>

text \<open>
  A host function enqueues kernel launches on the stream. A launch records the kernel,
  its template parameters, the grid size and the kernel's arguments; the pointers
  \<open>out\<close>, \<open>in\<close>, the operator and the vectors are the same for all launches of a call
  and are supplied when the stream is executed. Pointer arguments that the host shifts
  are recorded as element offsets from the caller's \<open>out\<close> and \<open>in\<close>.

  \<^item> \<open>ColsMain VecBytes BlockSize gridDim arrOffset rowLen len elemsPerThread\<close>
  \<^item> \<open>ColsTail MaxOffset arrOffset arrTail rowLen len\<close>
  \<^item> \<open>RowsMain VecBytes BlockSize gridDim base arrOffset rowLen len\<close>, where \<open>base\<close> is
    the offset of the pointers \<open>out + alignedOff\<close> and \<open>alignedStart\<close>
  \<^item> \<open>RowsTail MaxOffset arrOffset arrTail rowLen len\<close>
\<close>

datatype launch =
    ColsMain int int int int int int int
  | ColsTail int int int int int
  | RowsMain int int int int int int int
  | RowsTail int int int int int

text \<open>The alignment arithmetic at the head of both host functions.\<close>

definition totalLen_of :: "int \<Rightarrow> int \<Rightarrow> int" where
  "totalLen_of rowLen nRows = rowLen * nRows"

definition alignedOff_of :: "int \<Rightarrow> int \<Rightarrow> int \<Rightarrow> int" where
  "alignedOff_of VecBytes sz inp = ptr_diff sz (roundUp VecBytes inp) inp"

definition alignedEnd_of :: "int \<Rightarrow> int \<Rightarrow> int \<Rightarrow> int \<Rightarrow> int" where
  "alignedEnd_of VecBytes sz inp totalLen =
     ptr_diff sz (roundDown VecBytes (inp + totalLen * sz)) inp"

text \<open>\<open>MaxOffset = std::max(std::size_t(raft::WarpSize), VecBytes)\<close>.\<close>

definition MaxOffset_of :: "int \<Rightarrow> int" where
  "MaxOffset_of VecBytes = max WarpSize VecBytes"

text \<open>
  \<open>matrixLinewiseVecCols\<close>. \<open>occupy\<close> is the value of \<open>getOptimalGridSize\<close>, which
  depends on the device only. For \<open>elemsPerThread\<close> the product
  \<open>gs.x * VecElems * BlockSize\<close> is converted to the index type, \<open>ceildiv\<close> is taken at the
  index type, and the product with \<open>VecElems\<close> is converted to the index type.
\<close>

definition matrixLinewiseVecCols ::
  "int \<Rightarrow> int \<Rightarrow> int \<Rightarrow> 32 word \<Rightarrow> int \<Rightarrow> int \<Rightarrow> int \<Rightarrow> launch list" where
  "matrixLinewiseVecCols VecBytes BlockSize sz occupy inp rowLen nRows =
     (let VecElems = VecBytes sdiv sz;
          totalLen = totalLen_of rowLen nRows;
          alignedOff = alignedOff_of VecBytes sz inp;
          alignedEnd = alignedEnd_of VecBytes sz inp totalLen;
          alignedLen = alignedEnd - alignedOff
      in (if alignedLen > 0
          then (let maxBlocks = ceildiv_u (word_of_int alignedLen) (word_of_int (BlockSize * VecElems));
                    gs = min maxBlocks occupy;
                    elemsPerThread =
                      idx (ceildiv alignedLen (idx (uint gs * VecElems * BlockSize)) * VecElems)
                in [ColsMain VecBytes BlockSize (uint gs) alignedOff rowLen alignedLen elemsPerThread])
          else [])
       @ (if alignedLen < totalLen
          then [ColsTail (MaxOffset_of VecBytes) alignedOff alignedEnd rowLen totalLen]
          else []))"

text \<open>
  The grid size of the main kernel of \<open>matrixLinewiseVecRows\<close>:
  \<open>block_work_size = bs.x * uint(VecElems)\<close>,
  \<open>expected_grid_size = rowLen / raft::gcd(block_work_size, uint(rowLen))\<close> and the
  value of \<open>gs.x\<close>, all of type \<open>uint\<close>.
\<close>

definition block_work_size :: "int \<Rightarrow> int \<Rightarrow> 32 word" where
  "block_work_size BlockSize VecElems = word_of_int BlockSize * word_of_int VecElems"

definition expected_grid_size :: "int \<Rightarrow> int \<Rightarrow> int \<Rightarrow> 32 word" where
  "expected_grid_size BlockSize VecElems rowLen =
     word_of_int rowLen div gcd_u (block_work_size BlockSize VecElems) (word_of_int rowLen)"

definition vecRows_gridSize :: "int \<Rightarrow> int \<Rightarrow> 32 word \<Rightarrow> int \<Rightarrow> int \<Rightarrow> 32 word" where
  "vecRows_gridSize BlockSize VecElems occupy rowLen totalLen =
     min (ceildiv_u (word_of_int totalLen) (block_work_size BlockSize VecElems))
         (ceildiv_u occupy (expected_grid_size BlockSize VecElems rowLen)
            * expected_grid_size BlockSize VecElems rowLen)"

text \<open>\<open>matrixLinewiseVecRows\<close>.\<close>

definition matrixLinewiseVecRows ::
  "int \<Rightarrow> int \<Rightarrow> int \<Rightarrow> 32 word \<Rightarrow> int \<Rightarrow> int \<Rightarrow> int \<Rightarrow> launch list" where
  "matrixLinewiseVecRows VecBytes BlockSize sz occupy inp rowLen nRows =
     (let VecElems = VecBytes sdiv sz;
          totalLen = totalLen_of rowLen nRows;
          alignedOff = alignedOff_of VecBytes sz inp;
          alignedEnd = alignedEnd_of VecBytes sz inp totalLen;
          alignedLen = alignedEnd - alignedOff
      in (if alignedLen > 0
          then (let gs = vecRows_gridSize BlockSize VecElems occupy rowLen totalLen
                in [RowsMain VecBytes BlockSize (uint gs) alignedOff alignedOff rowLen alignedLen])
          else [])
       @ (if alignedLen < totalLen
          then [RowsTail (MaxOffset_of VecBytes) alignedOff alignedEnd rowLen totalLen]
          else []))"

text \<open>
  \<open>MatrixLinewiseOp<VecBytes, BlockSize>::run\<close>. The template parameter \<open>VecBytes\<close>
  and \<open>sizeof(Type)\<close> are of type \<open>std::size_t\<close>, hence \<open>nat\<close>. The result records the
  vector width of the instantiation that dispatches, and the launches it enqueues.
\<close>

record run_result =
  width :: nat
  launches :: "launch list"

function run ::
  "nat \<Rightarrow> int \<Rightarrow> nat \<Rightarrow> 32 word \<Rightarrow> int \<Rightarrow> int \<Rightarrow> int \<Rightarrow> int \<Rightarrow> bool \<Rightarrow> run_result" where
  "run VecBytes BlockSize sz occupy outp inp lineLen nLines alongLines =
     (if VecBytes > sz \<and> \<not> areSameAlignOffsets (int VecBytes) inp outp
      then run (max (VecBytes div 2) sz) BlockSize sz occupy outp inp lineLen nLines alongLines
      else if alongLines
      then \<lparr>width = VecBytes,
            launches = matrixLinewiseVecRows (int VecBytes) BlockSize (int sz) occupy inp lineLen nLines\<rparr>
      else \<lparr>width = VecBytes,
            launches = matrixLinewiseVecCols (int VecBytes) BlockSize (int sz) occupy inp lineLen nLines\<rparr>)"
  by pat_completeness auto
termination
  by (relation "measure (\<lambda>(VecBytes, BlockSize, sz, occupy, outp, inp, lineLen, nLines, alongLines).
          VecBytes - sz)") auto

declare run.simps [simp del]

section \<open>Device memory and memory accesses\<close>

text \<open>
  A device function reads the matrix \<open>in\<close> and the vectors and writes \<open>out\<close>. Memory is
  a function from element offsets (relative to the pointer the caller passed) to values;
  the function is total, and every access a thread performs is recorded, so that
  accesses outside a buffer are visible and can be checked afterwards. \<open>in\<close> and \<open>out\<close>
  are taken to be separate buffers.

  \<^item> \<open>LdIn p n\<close>: one load transaction of \<open>n\<close> scalars from \<open>in + p\<close>;
  \<^item> \<open>LdVec l j\<close>: a scalar load of element \<open>j\<close> of the \<open>l\<close>-th vector;
  \<^item> \<open>StOut p ws\<close>: one store transaction of the scalars \<open>ws\<close> to \<open>out + p\<close>.
\<close>

datatype 'a access = LdIn int int | LdVec nat int | StOut int "'a list"

section \<open>Linewise::vectorCols\<close>

text \<open>
  The local variables of \<open>vectorCols\<close>. \<open>trace\<close> lists the memory accesses performed so
  far; \<open>applied\<close> lists, for every call of \<open>op\<close>, the offset of the matrix element from
  the original \<open>in\<close> together with the values of \<open>rowDiv\<close> and \<open>rowMod\<close> at the call.
\<close>

record 'a vc_state =
  rowDiv :: int
  rowMod :: int
  update :: bool
  args :: "'a list"
  trace :: "'a access list"
  applied :: "(int \<times> int \<times> int) list"

text \<open>\<open>while (rowMod >= rowLen) { rowMod -= rowLen; rowDiv++; update = true; }\<close>\<close>

partial_function (option) vectorCols_while :: "int \<Rightarrow> 'a vc_state \<Rightarrow> 'a vc_state option" where
  [code]: "vectorCols_while rowLen s =
     (if rowMod s \<ge> rowLen
      then vectorCols_while rowLen (s\<lparr>rowMod := rowMod s - rowLen, rowDiv := rowDiv s + 1, update := True\<rparr>)
      else Some s)"

text \<open>\<open>((args[l] = vecs[rowDiv], l++), ...)\<close>\<close>

definition load_args :: "(int \<Rightarrow> 'a) list \<Rightarrow> 'a vc_state \<Rightarrow> 'a vc_state" where
  "load_args vecs s =
     s\<lparr>args := map (\<lambda>v. v (rowDiv s)) vecs,
       trace := trace s @ map (\<lambda>l. LdVec l (rowDiv s)) [0..<length vecs]\<rparr>"

text \<open>
  The inner loop over the \<open>VecElems\<close> scalars of the chunk \<open>v\<close>; \<open>p\<close> is the offset of
  the current scalar. It returns the scalars of \<open>w\<close>.
\<close>

fun vectorCols_elems ::
  "int \<Rightarrow> ('a \<Rightarrow> 'a list \<Rightarrow> 'a) \<Rightarrow> (int \<Rightarrow> 'a) list \<Rightarrow> int \<Rightarrow> 'a list \<Rightarrow> 'a vc_state
     \<Rightarrow> 'a list \<times> 'a vc_state" where
  "vectorCols_elems rowLen op vecs p [] s = ([], s)"
| "vectorCols_elems rowLen op vecs p (x # xs) s =
     (let s1 = (if rowMod s = rowLen
                then load_args vecs (s\<lparr>rowMod := 0, rowDiv := rowDiv s + 1\<rparr>)
                else s);
          y = op x (args s1);
          s2 = s1\<lparr>applied := applied s1 @ [(p, rowDiv s1, rowMod s1)], rowMod := rowMod s1 + 1\<rparr>;
          r = vectorCols_elems rowLen op vecs (p + 1) xs s2
      in (y # fst r, snd r))"

text \<open>
  The outer loop. \<open>pos\<close> is the offset of the pointers \<open>in\<close> and \<open>out\<close> (they advance
  together), \<open>e\<close> the offset of \<open>in_end\<close>; one step of a \<open>Vec::io_t\<close> pointer is
  \<open>VecElems\<close> scalars.
\<close>

partial_function (option) vectorCols_loop ::
  "int \<Rightarrow> int \<Rightarrow> ('a \<Rightarrow> 'a list \<Rightarrow> 'a) \<Rightarrow> (int \<Rightarrow> 'a) \<Rightarrow> (int \<Rightarrow> 'a) list \<Rightarrow> int \<Rightarrow> int
     \<Rightarrow> 'a vc_state \<Rightarrow> 'a vc_state option" where
  [code]: "vectorCols_loop VecElems rowLen op src vecs e pos s =
     (if pos < e
      then Option.bind (vectorCols_while rowLen (s\<lparr>trace := trace s @ [LdIn pos VecElems]\<rparr>))
        (\<lambda>s1. let v = map (\<lambda>k. src (pos + k)) [0..VecElems - 1];
                  s2 = (if update s1 then (load_args vecs s1)\<lparr>update := False\<rparr> else s1);
                  r = vectorCols_elems rowLen op vecs pos v s2;
                  s3 = (snd r)\<lparr>trace := trace (snd r) @ [StOut pos (fst r)]\<rparr>
              in vectorCols_loop VecElems rowLen op src vecs e (pos + WarpSize * VecElems)
                   (s3\<lparr>rowMod := rowMod s3 + (WarpSize - 1) * VecElems\<rparr>))
      else Some s)"

definition vectorCols ::
  "int \<Rightarrow> ('a \<Rightarrow> 'a list \<Rightarrow> 'a) \<Rightarrow> (int \<Rightarrow> 'a) \<Rightarrow> (int \<Rightarrow> 'a) list \<Rightarrow> int \<Rightarrow> int \<Rightarrow> int
     \<Rightarrow> int \<Rightarrow> int \<Rightarrow> 'a vc_state option" where
  "vectorCols VecElems op src vecs pos e rowLen rowDiv0 rowMod0 =
     vectorCols_loop VecElems rowLen op src vecs e pos
       \<lparr>rowDiv = rowDiv0, rowMod = rowMod0, update = True, args = [], trace = [], applied = []\<rparr>"

text \<open>
  \<open>matrixLinewiseVecColsMainKernel\<close> for the thread \<open>threadIdx\<close> of the block \<open>blockIdx\<close>.
  The sum assigned to \<open>t\<close> is computed in unsigned arithmetic and converted to the index
  type; \<open>t + elemsPerThread * AlignWarp::Value\<close> is computed in the index type.
\<close>

definition matrixLinewiseVecColsMainKernel ::
  "int \<Rightarrow> int \<Rightarrow> ('a \<Rightarrow> 'a list \<Rightarrow> 'a) \<Rightarrow> (int \<Rightarrow> 'a) \<Rightarrow> (int \<Rightarrow> 'a) list
     \<Rightarrow> int \<Rightarrow> int \<Rightarrow> int \<Rightarrow> int \<Rightarrow> int \<Rightarrow> int \<Rightarrow> 'a vc_state option" where
  "matrixLinewiseVecColsMainKernel VecElems BlockSize op src vecs
       arrOffset rowLen len elemsPerThread blockIdx threadIdx =
     (let t0 = Pow2_mod WarpSize threadIdx;
          t = idx (arrOffset + elemsPerThread * (blockIdx * BlockSize + threadIdx - t0)
                     + t0 * VecElems)
      in vectorCols VecElems op src vecs t (min (idx (t + elemsPerThread * WarpSize)) len)
           rowLen (t sdiv rowLen) (t smod rowLen))"

text \<open>
  \<open>matrixLinewiseVecColsTailKernel\<close>: two blocks, \<open>VecElems = 1\<close>.
\<close>

definition matrixLinewiseVecColsTailKernel ::
  "('a \<Rightarrow> 'a list \<Rightarrow> 'a) \<Rightarrow> (int \<Rightarrow> 'a) \<Rightarrow> (int \<Rightarrow> 'a) list
     \<Rightarrow> int \<Rightarrow> int \<Rightarrow> int \<Rightarrow> int \<Rightarrow> int \<Rightarrow> int \<Rightarrow> 'a vc_state option" where
  "matrixLinewiseVecColsTailKernel op src vecs arrOffset arrTail rowLen len blockIdx threadIdx =
     (let threadOffset = (if blockIdx = 0 then threadIdx else arrTail + threadIdx);
          elemsPerWarp = (if blockIdx = 0
                          then (if threadOffset < arrOffset then 1 else 0)
                          else (if threadOffset < len then 1 else 0));
          rowDiv0 = threadOffset sdiv rowLen;
          rowMod0 = threadOffset smod rowLen
      in vectorCols 1 op src vecs threadOffset (threadOffset + elemsPerWarp) rowLen rowDiv0 rowMod0)"

section \<open>Linewise::vectorRows and Linewise::loadVec\<close>

text \<open>
  \<open>vectorRows\<close> for one thread. \<open>base\<close> is the offset of the pointers \<open>out\<close> and \<open>in\<close>
  that the kernel passes, \<open>i\<close> the loop variable, \<open>d = BlockSize * gridDim.x\<close>, both
  of the index type; \<open>args'\<close> holds one chunk of \<open>VecElems\<close> scalars for every vector.
\<close>

partial_function (option) vectorRows_loop ::
  "int \<Rightarrow> ('a \<Rightarrow> 'a list \<Rightarrow> 'a) \<Rightarrow> (int \<Rightarrow> 'a) \<Rightarrow> int \<Rightarrow> int \<Rightarrow> int \<Rightarrow> 'a list list
     \<Rightarrow> int \<Rightarrow> 'a access list \<Rightarrow> 'a access list option" where
  [code]: "vectorRows_loop VecElems op src base len d args' i tr =
     (if i < len
      then (let p = base + i * VecElems;
                v = map (\<lambda>k. op (src (p + k)) (map (\<lambda>a. a ! nat k) args')) [0..VecElems - 1]
            in vectorRows_loop VecElems op src base len d args' (idx (i + d))
                 (tr @ [LdIn p VecElems, StOut p v]))
      else Some tr)"

definition vectorRows ::
  "int \<Rightarrow> int \<Rightarrow> int \<Rightarrow> ('a \<Rightarrow> 'a list \<Rightarrow> 'a) \<Rightarrow> (int \<Rightarrow> 'a) \<Rightarrow> int \<Rightarrow> int \<Rightarrow> 'a list list
     \<Rightarrow> int \<Rightarrow> int \<Rightarrow> 'a access list option" where
  "vectorRows VecElems BlockSize gridDim op src base len args' blockIdx threadIdx =
     vectorRows_loop VecElems op src base len (idx (BlockSize * gridDim)) args'
       (threadIdx + blockIdx * BlockSize) []"

text \<open>\<open>while (j >= rowLen) j -= rowLen;\<close>\<close>

partial_function (option) loadVec_while :: "int \<Rightarrow> int \<Rightarrow> int option" where
  [code]: "loadVec_while rowLen j = (if j \<ge> rowLen then loadVec_while rowLen (j - rowLen) else Some j)"

text \<open>
  The first phase of \<open>loadVec\<close> for one thread: the loop that copies scalars of the
  \<open>l\<close>-th vector \<open>p\<close> to the shared memory region at \<open>shm + off\<close>. The state is the
  shared memory and the accesses to global memory.
\<close>

partial_function (option) loadVec_fill ::
  "int \<Rightarrow> int \<Rightarrow> int \<Rightarrow> nat \<Rightarrow> (int \<Rightarrow> 'a) \<Rightarrow> int \<Rightarrow> int \<Rightarrow> int
     \<Rightarrow> (int \<Rightarrow> 'a) \<times> 'a access list \<Rightarrow> ((int \<Rightarrow> 'a) \<times> 'a access list) option" where
  [code]: "loadVec_fill VecElems BlockSize rowLen l p off k j st =
     (if k < VecElems * BlockSize
      then Option.bind (loadVec_while rowLen j)
        (\<lambda>j1. loadVec_fill VecElems BlockSize rowLen l p off (k + BlockSize) (j1 + BlockSize)
                 ((fst st)(off + k := p j1), snd st @ [LdVec l j1]))
      else Some st)"

text \<open>
  All threads of a block run the first phase and meet at \<open>__syncthreads()\<close>; the phase is
  modelled thread after thread (the threads write different cells).
\<close>

fun loadVec_fill_block ::
  "int \<Rightarrow> int \<Rightarrow> int \<Rightarrow> nat \<Rightarrow> (int \<Rightarrow> 'a) \<Rightarrow> int \<Rightarrow> int \<Rightarrow> int list
     \<Rightarrow> (int \<Rightarrow> 'a) \<times> 'a access list \<Rightarrow> ((int \<Rightarrow> 'a) \<times> 'a access list) option" where
  "loadVec_fill_block VecElems BlockSize rowLen l p off blockOffset [] st = Some st"
| "loadVec_fill_block VecElems BlockSize rowLen l p off blockOffset (threadIdx # ts) st =
     Option.bind
       (loadVec_fill VecElems BlockSize rowLen l p off threadIdx (blockOffset + threadIdx) st)
       (loadVec_fill_block VecElems BlockSize rowLen l p off blockOffset ts)"

text \<open>
  The second phase: after the barrier the thread reads its chunk,
  \<open>reinterpret_cast<Vec::io_t*>(shm)[threadIdx.x]\<close>.
\<close>

definition loadVec_read :: "int \<Rightarrow> (int \<Rightarrow> 'a) \<Rightarrow> int \<Rightarrow> int \<Rightarrow> 'a list" where
  "loadVec_read VecElems shm off threadIdx =
     map (\<lambda>k. shm (off + threadIdx * VecElems + k)) [0..VecElems - 1]"

text \<open>
  \<open>loadVec\<close> as the thread \<open>threadIdx\<close> of a block of \<open>BlockSize\<close> threads sees it: the
  chunk it returns, with the shared memory after the barrier and the accesses of the block.
\<close>

definition loadVec ::
  "int \<Rightarrow> int \<Rightarrow> (int \<Rightarrow> 'a) \<Rightarrow> int \<Rightarrow> nat \<Rightarrow> (int \<Rightarrow> 'a) \<Rightarrow> int \<Rightarrow> int \<Rightarrow> int
     \<Rightarrow> 'a list option" where
  "loadVec VecElems BlockSize shm off l p blockOffset rowLen threadIdx =
     map_option (\<lambda>st. loadVec_read VecElems (fst st) off threadIdx)
       (loadVec_fill_block VecElems BlockSize rowLen l p off blockOffset [0..BlockSize - 1] (shm, []))"

text \<open>
  The pack expansion \<open>(workOffset ^= workSize, L::loadVec(shm + workOffset, vecs, ...))...\<close>
  for a block: the vectors are staged one after the other, in regions of the shared
  memory that alternate between offset \<open>0\<close> and \<open>workSize\<close>; \<open>workOffset\<close> is the
  value of the variable before the expansion of the current vector. The result gives, for every
  vector, the chunks of all threads of the block (the thread \<open>t\<close> holds the \<open>t\<close>-th).
\<close>

fun loadVecs ::
  "int \<Rightarrow> int \<Rightarrow> int \<Rightarrow> int \<Rightarrow> nat \<Rightarrow> (int \<Rightarrow> 'a) list \<Rightarrow> int
     \<Rightarrow> (int \<Rightarrow> 'a) \<times> 'a access list \<Rightarrow> ('a list list list \<times> 'a access list) option" where
  "loadVecs VecElems BlockSize rowLen blockOffset l [] workOffset st = Some ([], snd st)"
| "loadVecs VecElems BlockSize rowLen blockOffset l (p # ps) workOffset st =
     (let workSize = VecElems * BlockSize;
          off = workOffset XOR workSize
      in Option.bind
           (loadVec_fill_block VecElems BlockSize rowLen l p off blockOffset [0..BlockSize - 1] st)
           (\<lambda>st1. map_option
                (\<lambda>r. (map (loadVec_read VecElems (fst st1) off) [0..BlockSize - 1] # fst r, snd r))
                (loadVecs VecElems BlockSize rowLen blockOffset (Suc l) ps off st1)))"

text \<open>
  \<open>matrixLinewiseVecRowsMainKernel\<close> for the block \<open>blockIdx\<close>: the accesses of the
  staging phase followed by those of the threads. \<open>shm\<close> is the content of the shared
  memory when the block starts (it is not initialised).
\<close>

definition matrixLinewiseVecRowsMainKernel ::
  "int \<Rightarrow> int \<Rightarrow> int \<Rightarrow> ('a \<Rightarrow> 'a list \<Rightarrow> 'a) \<Rightarrow> (int \<Rightarrow> 'a) \<Rightarrow> (int \<Rightarrow> 'a) list \<Rightarrow> (int \<Rightarrow> 'a)
     \<Rightarrow> int \<Rightarrow> int \<Rightarrow> int \<Rightarrow> int \<Rightarrow> int \<Rightarrow> 'a access list option" where
  "matrixLinewiseVecRowsMainKernel VecElems BlockSize gridDim op src vecs shm
       base arrOffset rowLen len blockIdx =
     (let workSize = VecElems * BlockSize;
          workOffset = workSize;
          blockOffset = (arrOffset + BlockSize * VecElems * blockIdx) smod rowLen
      in Option.bind (loadVecs VecElems BlockSize rowLen blockOffset 0 vecs workOffset (shm, []))
           (\<lambda>r. map_option (\<lambda>trs. snd r @ concat trs)
              (those (map (\<lambda>threadIdx.
                  vectorRows VecElems BlockSize gridDim op src base (Pow2_div VecElems len)
                    (map (\<lambda>c. c ! nat threadIdx) (fst r)) blockIdx threadIdx)
                [0..BlockSize - 1]))))"

text \<open>
  \<open>matrixLinewiseVecRowsTailKernel\<close> for the block \<open>blockIdx\<close>: \<open>VecElems = 1\<close>, the
  block has \<open>MaxOffset\<close> threads and the grid two blocks.
\<close>

definition matrixLinewiseVecRowsTailKernel ::
  "int \<Rightarrow> ('a \<Rightarrow> 'a list \<Rightarrow> 'a) \<Rightarrow> (int \<Rightarrow> 'a) \<Rightarrow> (int \<Rightarrow> 'a) list \<Rightarrow> (int \<Rightarrow> 'a)
     \<Rightarrow> int \<Rightarrow> int \<Rightarrow> int \<Rightarrow> int \<Rightarrow> int \<Rightarrow> 'a access list option" where
  "matrixLinewiseVecRowsTailKernel MaxOffset op src vecs shm arrOffset arrTail rowLen len blockIdx =
     (let workSize = MaxOffset;
          workOffset = workSize
      in if blockIdx = 0
         then Option.bind (loadVecs 1 MaxOffset rowLen 0 0 vecs workOffset (shm, []))
           (\<lambda>r. map_option (\<lambda>trs. snd r @ concat trs)
              (those (map (\<lambda>threadIdx.
                  vectorRows 1 MaxOffset 2 op src 0 arrOffset
                    (map (\<lambda>c. c ! nat threadIdx) (fst r)) blockIdx threadIdx)
                [0..MaxOffset - 1])))
         else Option.bind (loadVecs 1 MaxOffset rowLen (arrTail smod rowLen) 0 vecs workOffset (shm, []))
           (\<lambda>r. map_option (\<lambda>trs. snd r @ concat trs)
              (those (map (\<lambda>threadIdx.
                  vectorRows 1 MaxOffset 2 op src (arrTail - MaxOffset) (len - arrTail + MaxOffset)
                    (map (\<lambda>c. c ! nat threadIdx) (fst r)) blockIdx threadIdx)
                [0..MaxOffset - 1]))))"

section \<open>Executing the stream\<close>

text \<open>
  The accesses of one block of a launch: the threads of the block are run one after the
  other (they write different cells of \<open>out\<close> and read memory that no thread writes).
  The result is \<open>None\<close> when a thread does not terminate.
\<close>

fun exec_block ::
  "int \<Rightarrow> ('a \<Rightarrow> 'a list \<Rightarrow> 'a) \<Rightarrow> (int \<Rightarrow> 'a) \<Rightarrow> (int \<Rightarrow> 'a) list \<Rightarrow> (int \<Rightarrow> 'a) \<Rightarrow> launch
     \<Rightarrow> int \<Rightarrow> 'a access list option" where
  "exec_block sz op src vecs shm
       (ColsMain VecBytes BlockSize gridDim arrOffset rowLen len elemsPerThread) blockIdx =
     map_option concat (those (map (\<lambda>threadIdx.
         map_option trace
           (matrixLinewiseVecColsMainKernel (VecBytes sdiv sz) BlockSize op src vecs
              arrOffset rowLen len elemsPerThread blockIdx threadIdx))
       [0..BlockSize - 1]))"
| "exec_block sz op src vecs shm (ColsTail MaxOffset arrOffset arrTail rowLen len) blockIdx =
     map_option concat (those (map (\<lambda>threadIdx.
         map_option trace
           (matrixLinewiseVecColsTailKernel op src vecs arrOffset arrTail rowLen len blockIdx threadIdx))
       [0..MaxOffset - 1]))"
| "exec_block sz op src vecs shm (RowsMain VecBytes BlockSize gridDim base arrOffset rowLen len) blockIdx =
     matrixLinewiseVecRowsMainKernel (VecBytes sdiv sz) BlockSize gridDim op src vecs shm
       base arrOffset rowLen len blockIdx"
| "exec_block sz op src vecs shm (RowsTail MaxOffset arrOffset arrTail rowLen len) blockIdx =
     matrixLinewiseVecRowsTailKernel MaxOffset op src vecs shm arrOffset arrTail rowLen len blockIdx"

text \<open>The number of blocks of a launch; the boundary kernels are launched with two.\<close>

fun gridDim_of :: "launch \<Rightarrow> int" where
  "gridDim_of (ColsMain VecBytes BlockSize gridDim arrOffset rowLen len elemsPerThread) = gridDim"
| "gridDim_of (ColsTail MaxOffset arrOffset arrTail rowLen len) = 2"
| "gridDim_of (RowsMain VecBytes BlockSize gridDim base arrOffset rowLen len) = gridDim"
| "gridDim_of (RowsTail MaxOffset arrOffset arrTail rowLen len) = 2"

text \<open>The accesses of a launch: its blocks, one after the other.\<close>

definition exec_launch ::
  "int \<Rightarrow> ('a \<Rightarrow> 'a list \<Rightarrow> 'a) \<Rightarrow> (int \<Rightarrow> 'a) \<Rightarrow> (int \<Rightarrow> 'a) list \<Rightarrow> (int \<Rightarrow> 'a) \<Rightarrow> launch
     \<Rightarrow> 'a access list option" where
  "exec_launch sz op src vecs shm l =
     map_option concat (those (map (exec_block sz op src vecs shm l) [0..gridDim_of l - 1]))"

definition exec_stream ::
  "int \<Rightarrow> ('a \<Rightarrow> 'a list \<Rightarrow> 'a) \<Rightarrow> (int \<Rightarrow> 'a) \<Rightarrow> (int \<Rightarrow> 'a) list \<Rightarrow> (int \<Rightarrow> 'a) \<Rightarrow> launch list
     \<Rightarrow> 'a access list option" where
  "exec_stream sz op src vecs shm ls =
     map_option concat (those (map (exec_launch sz op src vecs shm) ls))"

text \<open>
  An access is checked against the buffers: \<open>in\<close> and \<open>out\<close> hold \<open>totalLen\<close> scalars, a
  vector holds \<open>vecLen\<close>, and a transaction of \<open>n\<close> scalars needs an address that is a
  multiple of its \<open>n * sz\<close> bytes. \<open>inA\<close> and \<open>outA\<close> are the byte addresses of \<open>in\<close> and
  \<open>out\<close>.
\<close>

datatype error = OutOfBounds | Misaligned

fun check_access :: "int \<Rightarrow> int \<Rightarrow> int \<Rightarrow> int \<Rightarrow> int \<Rightarrow> 'a access \<Rightarrow> error option" where
  "check_access sz outA inA totalLen vecLen (LdIn p n) =
     (if p < 0 \<or> totalLen < p + n then Some OutOfBounds
      else if (inA + p * sz) mod (n * sz) \<noteq> 0 then Some Misaligned
      else None)"
| "check_access sz outA inA totalLen vecLen (LdVec l j) =
     (if j < 0 \<or> vecLen \<le> j then Some OutOfBounds else None)"
| "check_access sz outA inA totalLen vecLen (StOut p ws) =
     (if p < 0 \<or> totalLen < p + int (length ws) then Some OutOfBounds
      else if (outA + p * sz) mod (int (length ws) * sz) \<noteq> 0 then Some Misaligned
      else None)"

text \<open>The effect of an access on the memory at \<open>out\<close>.\<close>

fun store :: "'a access \<Rightarrow> (int \<Rightarrow> 'a) \<Rightarrow> (int \<Rightarrow> 'a)" where
  "store (StOut p ws) mem = fold (\<lambda>k m. m(p + int k := ws ! k)) [0..<length ws] mem"
| "store _ mem = mem"

text \<open>
  A whole call of \<open>MatrixLinewiseOp<VecBytes, BlockSize>::run\<close> followed by the
  synchronisation of the stream. \<open>None\<close>: some thread does not terminate; \<open>Inl e\<close>: a
  thread performs an access that is out of bounds or misaligned (undefined behaviour);
  \<open>Inr mem\<close>: the content of the memory at \<open>out\<close> afterwards. \<open>out0\<close> is the content of
  that memory before the call.
\<close>

definition linewise ::
  "nat \<Rightarrow> int \<Rightarrow> nat \<Rightarrow> 32 word \<Rightarrow> int \<Rightarrow> int \<Rightarrow> int \<Rightarrow> int \<Rightarrow> bool
     \<Rightarrow> ('a \<Rightarrow> 'a list \<Rightarrow> 'a) \<Rightarrow> (int \<Rightarrow> 'a) \<Rightarrow> (int \<Rightarrow> 'a) list \<Rightarrow> (int \<Rightarrow> 'a) \<Rightarrow> (int \<Rightarrow> 'a)
     \<Rightarrow> (error + (int \<Rightarrow> 'a)) option" where
  "linewise VecBytes BlockSize sz occupy outA inA lineLen nLines alongLines op src vecs shm out0 =
     map_option
       (\<lambda>tr. case List.map_filter
                   (check_access (int sz) outA inA (lineLen * nLines)
                      (if alongLines then lineLen else nLines)) tr of
               [] \<Rightarrow> Inr (fold store tr out0)
             | e # _ \<Rightarrow> Inl e)
       (exec_stream (int sz) op src vecs shm
          (launches (run VecBytes BlockSize sz occupy outA inA lineLen nLines alongLines)))"

section \<open>Observations of a trace\<close>

text \<open>
  \<open>stores_of\<close> lists the scalars that a trace writes to \<open>out\<close>, with their offsets, in
  the order of the writes. \<open>vec_load_within lo hi\<close> holds of the loads of a vector element
  whose index lies between \<open>lo\<close> and \<open>hi\<close>.
\<close>

fun stores_of :: "'a access list \<Rightarrow> (int \<times> 'a) list" where
  "stores_of [] = []"
| "stores_of (StOut p ws # tr) = map (\<lambda>k. (p + int k, ws ! k)) [0..<length ws] @ stores_of tr"
| "stores_of (_ # tr) = stores_of tr"

fun vec_load_within :: "int \<Rightarrow> int \<Rightarrow> 'a access \<Rightarrow> bool" where
  "vec_load_within lo hi (LdVec l j) = (lo \<le> j \<and> j \<le> hi)"
| "vec_load_within lo hi _ = False"

text \<open>
  What the inner loop of \<open>vectorCols\<close> establishes, started at the element offset \<open>p\<close> in
  the state \<open>s\<close> on the loaded scalars \<open>xs\<close>, for its result \<open>r\<close>.
\<close>

definition elems_post ::
  "int \<Rightarrow> ('a \<Rightarrow> 'a list \<Rightarrow> 'a) \<Rightarrow> (int \<Rightarrow> 'a) list \<Rightarrow> int \<Rightarrow> 'a list \<Rightarrow> 'a vc_state
     \<Rightarrow> 'a list \<times> 'a vc_state \<Rightarrow> bool" where
  "elems_post rowLen op vecs p xs s r =
     (fst r = map (\<lambda>k. op (xs ! k) (map (\<lambda>v. v ((p + int k) div rowLen)) vecs)) [0..<length xs]
      \<and> 0 \<le> rowMod (snd r) \<and> rowMod (snd r) \<le> rowLen
      \<and> rowDiv (snd r) * rowLen + rowMod (snd r) = p + int (length xs)
      \<and> args (snd r) = map (\<lambda>v. v (rowDiv (snd r))) vecs
      \<and> update (snd r) = update s
      \<and> applied (snd r)
           = applied s @ map (\<lambda>k. (p + int k, (p + int k) div rowLen, (p + int k) mod rowLen)) [0..<length xs]
      \<and> (\<exists>tr. trace (snd r) = trace s @ tr
            \<and> list_all (vec_load_within (p div rowLen) ((p + int (length xs) - 1) div rowLen)) tr))"

text \<open>
  The chunks that the outer loop of \<open>vectorCols\<close> visits between \<open>pos\<close> and \<open>e\<close>: the
  offsets \<open>pos\<close>, \<open>pos + WarpSize * VecElems\<close>, ... below \<open>e\<close>.
\<close>

definition vectorCols_chunks :: "int \<Rightarrow> int \<Rightarrow> int \<Rightarrow> int list" where
  "vectorCols_chunks VecElems pos e =
     map (\<lambda>n. pos + int n * (WarpSize * VecElems))
       [0..<nat ((e - pos - 1) div (WarpSize * VecElems) + 1)]"

text \<open>The offsets of the scalars of a list of chunks.\<close>

definition chunk_elems :: "int \<Rightarrow> int list \<Rightarrow> int list" where
  "chunk_elems VecElems cs = concat (map (\<lambda>c. map (\<lambda>k. c + int k) [0..<nat VecElems]) cs)"

text \<open>
  An access of \<open>vectorCols\<close> on the chunks \<open>cs\<close>: a transaction of \<open>VecElems\<close> scalars at
  one of the chunks, or the load of the vector element of a row that meets a chunk.
\<close>

fun vc_access_within :: "int \<Rightarrow> int \<Rightarrow> int list \<Rightarrow> 'a access \<Rightarrow> bool" where
  "vc_access_within VecElems rowLen cs (LdIn p n) = (n = VecElems \<and> p \<in> set cs)"
| "vc_access_within VecElems rowLen cs (LdVec l j) =
     (\<exists>c \<in> set cs. c div rowLen \<le> j \<and> j \<le> (c + VecElems - 1) div rowLen)"
| "vc_access_within VecElems rowLen cs (StOut p ws) = (int (length ws) = VecElems \<and> p \<in> set cs)"

text \<open>
  What \<open>vectorCols\<close> establishes from the state \<open>s\<close> at offset \<open>pos\<close> for its final state
  \<open>s'\<close>: \<open>op\<close> has been applied to the scalars of the chunks, in order, each time with
  \<open>rowDiv\<close> and \<open>rowMod\<close> the quotient and remainder of the offset by \<open>rowLen\<close>; the scalars
  written are the results of \<open>op\<close> on the matrix element and the vector elements of its
  row; and all accesses are accesses on the chunks.
\<close>

definition loop_post ::
  "int \<Rightarrow> int \<Rightarrow> ('a \<Rightarrow> 'a list \<Rightarrow> 'a) \<Rightarrow> (int \<Rightarrow> 'a) \<Rightarrow> (int \<Rightarrow> 'a) list \<Rightarrow> int \<Rightarrow> int
     \<Rightarrow> 'a vc_state \<Rightarrow> 'a vc_state \<Rightarrow> bool" where
  "loop_post VecElems rowLen op src vecs e pos s s' =
     (applied s' = applied s @ map (\<lambda>p. (p, p div rowLen, p mod rowLen))
                                (chunk_elems VecElems (vectorCols_chunks VecElems pos e))
      \<and> (\<exists>tr. trace s' = trace s @ tr
            \<and> stores_of tr = map (\<lambda>p. (p, op (src p) (map (\<lambda>v. v (p div rowLen)) vecs)))
                                (chunk_elems VecElems (vectorCols_chunks VecElems pos e))
            \<and> list_all (vc_access_within VecElems rowLen (vectorCols_chunks VecElems pos e)) tr))"

text \<open>The offsets that a thread writes, in order; empty when the thread does not terminate.\<close>

definition writes_of :: "'a vc_state option \<Rightarrow> int list" where
  "writes_of r = (case r of None \<Rightarrow> [] | Some s \<Rightarrow> map fst (stores_of (trace s)))"

text \<open>
  The offsets of \<open>out\<close> that the block \<open>blockIdx\<close> of a launch writes, in the order of the
  writes, and the offsets that all blocks of a launch write.
\<close>

definition block_writes ::
  "int \<Rightarrow> ('a \<Rightarrow> 'a list \<Rightarrow> 'a) \<Rightarrow> (int \<Rightarrow> 'a) \<Rightarrow> (int \<Rightarrow> 'a) list \<Rightarrow> (int \<Rightarrow> 'a) \<Rightarrow> launch
     \<Rightarrow> int \<Rightarrow> int list" where
  "block_writes sz op src vecs shm l blockIdx =
     (case exec_block sz op src vecs shm l blockIdx of
        None \<Rightarrow> [] | Some tr \<Rightarrow> map fst (stores_of tr))"

definition launch_writes ::
  "int \<Rightarrow> ('a \<Rightarrow> 'a list \<Rightarrow> 'a) \<Rightarrow> (int \<Rightarrow> 'a) \<Rightarrow> (int \<Rightarrow> 'a) list \<Rightarrow> (int \<Rightarrow> 'a) \<Rightarrow> launch
     \<Rightarrow> int list" where
  "launch_writes sz op src vecs shm l =
     concat (map (block_writes sz op src vecs shm l) [0..gridDim_of l - 1])"

text \<open>
  The scalars \<open>out[0], ..., out[n - 1]\<close> after a call, for comparing results.
\<close>

definition read_out :: "int \<Rightarrow> (error + (int \<Rightarrow> 'a)) option \<Rightarrow> (error + 'a list) option" where
  "read_out n r = map_option (map_sum id (\<lambda>mem. map mem [0..n - 1])) r"

section \<open>The result of a call\<close>

text \<open>
  \<open>cols_result\<close> is the scalar that the engine is to leave at the offset \<open>i\<close> of \<open>out\<close> when
  the vectors are applied across the rows (\<open>alongLines = false\<close>): \<open>op\<close> of the matrix
  element and of the elements of the vectors at the index of its row.
\<close>

definition cols_result ::
  "int \<Rightarrow> ('a \<Rightarrow> 'a list \<Rightarrow> 'a) \<Rightarrow> (int \<Rightarrow> 'a) \<Rightarrow> (int \<Rightarrow> 'a) list \<Rightarrow> int \<Rightarrow> 'a" where
  "cols_result rowLen op src vecs i = op (src i) (map (\<lambda>v. v (i div rowLen)) vecs)"

text \<open>
  \<open>rows_result\<close> is that scalar when the vectors are applied along the rows
  (\<open>alongLines = true\<close>): \<open>op\<close> of the matrix element and of the elements of the vectors at
  its position within the row.
\<close>

definition rows_result ::
  "int \<Rightarrow> ('a \<Rightarrow> 'a list \<Rightarrow> 'a) \<Rightarrow> (int \<Rightarrow> 'a) \<Rightarrow> (int \<Rightarrow> 'a) list \<Rightarrow> int \<Rightarrow> 'a" where
  "rows_result rowLen op src vecs i = op (src i) (map (\<lambda>v. v (i mod rowLen)) vecs)"

text \<open>
  \<open>trace_ok\<close> holds of the accesses \<open>tr\<close> of a thread, a block, a launch or a stream when
  every access is within the buffers and aligned, every scalar written at an offset \<open>p\<close>
  is \<open>f p\<close>, and the offsets written are those of the set \<open>S\<close>.
\<close>

definition trace_ok ::
  "int \<Rightarrow> int \<Rightarrow> int \<Rightarrow> int \<Rightarrow> int \<Rightarrow> (int \<Rightarrow> 'a) \<Rightarrow> int set \<Rightarrow> 'a access list \<Rightarrow> bool" where
  "trace_ok sz outA inA totalLen vecLen f S tr =
     ((\<forall>a \<in> set tr. check_access sz outA inA totalLen vecLen a = None)
      \<and> (\<forall>(p, x) \<in> set (stores_of tr). x = f p)
      \<and> fst ` set (stores_of tr) = S)"

text \<open>
  The index, counted in chunks of \<open>VecElems\<close> scalars from \<open>alignedOff\<close>, of the \<open>n\<close>-th
  chunk that the thread \<open>threadIdx\<close> of the block \<open>blockIdx\<close> of the main kernel of
  \<open>matrixLinewiseVecCols\<close> visits, when every thread is given \<open>E\<close> chunks.
\<close>

definition ColsMain_chunk :: "int \<Rightarrow> int \<Rightarrow> int \<Rightarrow> int \<Rightarrow> int \<Rightarrow> int" where
  "ColsMain_chunk E BlockSize blockIdx threadIdx n =
     E * (blockIdx * BlockSize + threadIdx - threadIdx mod 32) + threadIdx mod 32 + 32 * n"

section \<open>Arithmetic of the index type\<close>

lemma idx_id: "- 2147483648 \<le> x \<Longrightarrow> x < 2147483648 \<Longrightarrow> idx x = x"
  by (simp add: idx_def)

lemma idx_code [code]:
  "idx x = (if - 2147483648 \<le> x \<and> x < 2147483648 then x
            else (x + 2147483648) mod 4294967296 - 2147483648)"
  by (simp add: idx_def)

section \<open>The orchestrator: width selection and launches\<close>




lemma launches_run_cases:
  "\<exists>W. launches (run VecBytes BlockSize sz occupy outA inA lineLen nLines alongLines) =
        (if alongLines then matrixLinewiseVecRows (int W) BlockSize (int sz) occupy inA lineLen nLines
         else matrixLinewiseVecCols (int W) BlockSize (int sz) occupy inA lineLen nLines)"
proof (induction VecBytes BlockSize sz occupy outA inA lineLen nLines alongLines rule: run.induct)
  case (1 VecBytes BlockSize sz occupy outp inp lineLen nLines alongLines)
  show ?case
  proof (cases "VecBytes > sz \<and> \<not> areSameAlignOffsets (int VecBytes) inp outp")
    case True
    from "1.IH" [OF True] True show ?thesis
      by (subst run.simps) simp
  next
    case False
    then show ?thesis
      by (subst run.simps) auto
  qed
qed

lemma length_VecCols:
  "length (matrixLinewiseVecCols W BlockSize sz occupy inA rowLen nRows) \<le> 2"
  "0 < rowLen * nRows \<Longrightarrow> 1 \<le> length (matrixLinewiseVecCols W BlockSize sz occupy inA rowLen nRows)"
  by (auto simp: matrixLinewiseVecCols_def Let_def totalLen_of_def)

lemma length_VecRows:
  "length (matrixLinewiseVecRows W BlockSize sz occupy inA rowLen nRows) \<le> 2"
  "0 < rowLen * nRows \<Longrightarrow> 1 \<le> length (matrixLinewiseVecRows W BlockSize sz occupy inA rowLen nRows)"
  by (auto simp: matrixLinewiseVecRows_def Let_def totalLen_of_def)

text \<open>
  C7, as amended. A call of \<open>run\<close> on a non-empty matrix (\<open>lineLen \<ge> 1\<close>, \<open>nLines \<ge> 1\<close>)
  enqueues at least one and at most two kernel launches (the main kernel when the
  aligned body is not empty, the boundary kernel when the body is not the whole matrix),
  hence between one and four, for every alignment and both broadcast axes.
\<close>

theorem run_launch_count:
  assumes "0 < lineLen" "0 < nLines"
  shows "1 \<le> length (launches (run VecBytes BlockSize sz occupy outA inA lineLen nLines alongLines))
       \<and> length (launches (run VecBytes BlockSize sz occupy outA inA lineLen nLines alongLines)) \<le> 2"
proof -
  have pos: "0 < lineLen * nLines" using assms by simp
  obtain W where W: "launches (run VecBytes BlockSize sz occupy outA inA lineLen nLines alongLines) =
        (if alongLines then matrixLinewiseVecRows (int W) BlockSize (int sz) occupy inA lineLen nLines
         else matrixLinewiseVecCols (int W) BlockSize (int sz) occupy inA lineLen nLines)"
    using launches_run_cases by blast
  from length_VecCols(2) [OF pos] length_VecRows(2) [OF pos] show ?thesis
    unfolding W by (cases alongLines) (simp_all add: length_VecCols(1) length_VecRows(1))
qed

theorem run_launch_count_witness:
  "(0::int) < 4 \<and> (0::int) < 3
   \<and> 1 \<le> length (launches (run 16 256 4 5120 1028 4 4 3 False))
   \<and> length (launches (run 16 256 4 5120 1028 4 4 3 False)) \<le> 2"
  using run_launch_count [of 4 3 16 256 4 5120 1028 4 False] by simp

text \<open>
  C7 as stated fails on an empty matrix: with \<open>nLines = 0\<close> and an aligned \<open>in\<close>, both
  guards of \<open>matrixLinewiseVecCols\<close> are false and no kernel is launched.
\<close>

theorem run_launch_count_counterexample:
  "length (launches (run 16 256 4 5120 1024 0 4 0 False)) = 0"
  by (simp add: run.simps matrixLinewiseVecCols_def areSameAlignOffsets_def totalLen_of_def
      alignedOff_of_def alignedEnd_of_def ptr_diff_def roundUp_def roundDown_def)

section \<open>Alignment arithmetic\<close>

lemma roundUp_bounds:
  assumes "0 < W" shows "p \<le> roundUp W p" and "roundUp W p < p + W"
proof -
  have eq: "roundUp W p = (p + W - 1) - (p + W - 1) mod W"
    unfolding roundUp_def by (simp add: minus_mod_eq_div_mult)
  have "0 \<le> (p + W - 1) mod W" "(p + W - 1) mod W < W" using assms by simp_all
  then show "p \<le> roundUp W p" and "roundUp W p < p + W" unfolding eq by linarith+
qed

lemma roundDown_bounds:
  assumes "0 < W" shows "roundDown W p \<le> p" and "p < roundDown W p + W"
proof -
  have eq: "roundDown W p = p - p mod W"
    unfolding roundDown_def by (simp add: minus_mod_eq_div_mult)
  have "0 \<le> p mod W" "p mod W < W" using assms by simp_all
  then show "roundDown W p \<le> p" and "p < roundDown W p + W" unfolding eq by linarith+
qed

lemma div_nonneg_le:
  assumes "0 \<le> x" "0 < sz" shows "0 \<le> x div sz \<and> x div sz \<le> (x::int)"
proof -
  have "x div sz \<le> x div 1" using assms by (intro zdiv_mono2) simp_all
  moreover have "0 \<le> x div sz" using assms by (simp add: pos_imp_zdiv_nonneg_iff)
  ultimately show ?thesis by simp
qed

lemma div_nonpos_ge:
  assumes "0 \<le> x" "0 < sz" shows "- x \<le> (- x) div (sz::int) \<and> (- x) div sz \<le> 0"
proof (cases "x = 0")
  case True then show ?thesis by simp
next
  case False
  then have neg: "- x < 0" using assms by simp
  have "(- x) div 1 \<le> (- x) div sz" using neg assms by (intro zdiv_mono2_neg) simp_all
  moreover have "(- x) div sz \<le> 0" using neg assms by (intro div_nonpos_pos_le0) simp_all
  ultimately show ?thesis by simp
qed

lemma alignedOff_bounds:
  assumes "0 < VecBytes" "0 < sz"
  shows "0 \<le> alignedOff_of VecBytes sz inA" and "alignedOff_of VecBytes sz inA < VecBytes"
proof -
  let ?x = "roundUp VecBytes inA - inA"
  have x: "0 \<le> ?x" "?x < VecBytes" using roundUp_bounds [OF assms(1), of inA] by linarith+
  from div_nonneg_le [OF x(1) assms(2)] x(2)
  show "0 \<le> alignedOff_of VecBytes sz inA" and "alignedOff_of VecBytes sz inA < VecBytes"
    unfolding alignedOff_of_def ptr_diff_def by linarith+
qed

lemma alignedEnd_bounds:
  assumes "0 < VecBytes" "0 < sz"
  shows "alignedEnd_of VecBytes sz inA totalLen \<le> totalLen"
    and "totalLen - alignedEnd_of VecBytes sz inA totalLen < VecBytes"
proof -
  define x where "x = inA + totalLen * sz - roundDown VecBytes (inA + totalLen * sz)"
  have x: "0 \<le> x" "x < VecBytes"
    using roundDown_bounds [OF assms(1), of "inA + totalLen * sz"] unfolding x_def by linarith+
  have "roundDown VecBytes (inA + totalLen * sz) - inA = - x + totalLen * sz" by (simp add: x_def)
  then have "alignedEnd_of VecBytes sz inA totalLen = (- x + totalLen * sz) div sz"
    unfolding alignedEnd_of_def ptr_diff_def by simp
  also have "\<dots> = totalLen + (- x) div sz"
    by (rule div_mult_self1) (use assms(2) in simp)
  finally have eq: "alignedEnd_of VecBytes sz inA totalLen = totalLen + (- x) div sz" .
  from div_nonpos_ge [OF x(1) assms(2)] x(2)
  show "alignedEnd_of VecBytes sz inA totalLen \<le> totalLen"
    and "totalLen - alignedEnd_of VecBytes sz inA totalLen < VecBytes"
    unfolding eq by linarith+
qed

section \<open>Grid size of the striped kernel\<close>

lemma unat_word_of_int_32:
  assumes "0 \<le> k" "k < 2 ^ 32" shows "unat (word_of_int k :: 32 word) = nat k"
proof -
  have "(word_of_int k :: 32 word) = of_nat (nat k)" using assms(1) by (rule word_of_int_nat)
  moreover have "nat k < 2 ^ 32" using assms by (simp add: nat_less_iff)
  ultimately show ?thesis by (simp only: unat_of_nat) simp
qed

lemma expected_grid_size_unat:
  assumes "1 \<le> rowLen" "rowLen < 2 ^ 31"
  shows "unat (expected_grid_size BlockSize VecElems rowLen)
         = nat rowLen div gcd (unat (block_work_size BlockSize VecElems)) (nat rowLen)"
    and "1 \<le> unat (expected_grid_size BlockSize VecElems rowLen)"
    and "unat (expected_grid_size BlockSize VecElems rowLen) < 2 ^ 31"
proof -
  let ?b = "unat (block_work_size BlockSize VecElems)"
  have r: "unat (word_of_int rowLen :: 32 word) = nat rowLen"
    using assms by (intro unat_word_of_int_32) simp_all
  have rpos: "0 < nat rowLen" "nat rowLen < 2 ^ 31" using assms by (simp_all add: nat_less_iff)
  have gle: "gcd ?b (nat rowLen) \<le> nat rowLen" using rpos(1) by (intro gcd_le2_nat) simp
  have gpos: "0 < gcd ?b (nat rowLen)" using rpos(1) by simp
  have g: "unat (gcd_u (block_work_size BlockSize VecElems) (word_of_int rowLen)) = gcd ?b (nat rowLen)"
    unfolding gcd_u_def r using gle rpos(2) by (simp add: unat_of_nat)
  show eq: "unat (expected_grid_size BlockSize VecElems rowLen) = nat rowLen div gcd ?b (nat rowLen)"
    unfolding expected_grid_size_def by (simp add: unat_div g r)
  have "nat rowLen div gcd ?b (nat rowLen) * gcd ?b (nat rowLen) = nat rowLen"
    by (intro dvd_div_mult_self) simp
  then have "0 < nat rowLen div gcd ?b (nat rowLen)" using rpos(1)
    by (cases "nat rowLen div gcd ?b (nat rowLen) = 0") simp_all
  then show "1 \<le> unat (expected_grid_size BlockSize VecElems rowLen)" unfolding eq by simp
  have "nat rowLen div gcd ?b (nat rowLen) \<le> nat rowLen" by (rule div_le_dividend)
  then show "unat (expected_grid_size BlockSize VecElems rowLen) < 2 ^ 31"
    unfolding eq using rpos(2) by linarith
qed

lemma ceildiv_u_mult:
  fixes a e :: "32 word"
  assumes "1 \<le> unat e" "unat a + unat e \<le> 2 ^ 32"
  shows "unat (ceildiv_u a e * e) = ((unat a + unat e - 1) div unat e) * unat e"
    and "unat a \<le> unat (ceildiv_u a e * e)"
proof -
  have "0 < unat e" using assms(1) by simp
  then have "e \<noteq> 0" by (simp add: unat_gt_0)
  then have e1: "unat (e - 1) = unat e - 1" by (rule unat_minus_one)
  have "unat a + unat (e - 1) < 2 ^ 32" using assms e1 by simp
  then have "unat (a + (e - 1)) = unat a + unat (e - 1)"
    by (intro iffD1 [OF unat_add_lem]) simp
  moreover have "a + (e - 1) = a + e - 1" by simp
  ultimately have n: "unat (a + e - 1) = unat a + unat e - 1" using e1 assms(1) by simp
  have q: "unat (ceildiv_u a e) = (unat a + unat e - 1) div unat e"
    unfolding ceildiv_u_def by (simp add: unat_div n)
  have "(unat a + unat e - 1) div unat e * unat e \<le> unat a + unat e - 1" by simp
  then have "unat (ceildiv_u a e) * unat e < 2 ^ 32" unfolding q using assms by linarith
  then have "unat (ceildiv_u a e * e) = unat (ceildiv_u a e) * unat e"
    by (intro iffD1 [OF unat_mult_lem]) simp
  then show eq: "unat (ceildiv_u a e * e) = ((unat a + unat e - 1) div unat e) * unat e"
    unfolding q .
  have "unat a + unat e - 1 < unat e + ((unat a + unat e - 1) div unat e) * unat e"
    using assms(1) by (intro dividend_less_div_times) simp
  then show "unat a \<le> unat (ceildiv_u a e * e)" unfolding eq using assms(1) by linarith
qed


text \<open>
  C2, as amended. With a 32-bit index type (\<open>1 \<le> rowLen < 2^31\<close>) and an occupancy
  target below \<open>2^31\<close> (so that the \<open>uint\<close> arithmetic does not wrap), the grid size of
  the main kernel of \<open>matrixLinewiseVecRows\<close> is the smaller of
  \<open>ceildiv(totalLen, block_work_size)\<close> and a multiple of \<open>expected_grid_size\<close> that is not
  below the occupancy target: it is \<open>ceildiv(totalLen, block_work_size)\<close>, or it is an
  exact multiple of \<open>rowLen / gcd(block_work_size, rowLen)\<close> and at least the occupancy
  target.
\<close>

theorem vecRows_gridSize_multiple:
  assumes "1 \<le> rowLen" "rowLen < 2 ^ 31" "unat occupy < 2 ^ 31"
  shows "vecRows_gridSize BlockSize VecElems occupy rowLen totalLen
           = ceildiv_u (word_of_int totalLen) (block_work_size BlockSize VecElems)
       \<or> (unat (expected_grid_size BlockSize VecElems rowLen)
              dvd unat (vecRows_gridSize BlockSize VecElems occupy rowLen totalLen)
          \<and> unat occupy \<le> unat (vecRows_gridSize BlockSize VecElems occupy rowLen totalLen))"
proof -
  let ?e = "expected_grid_size BlockSize VecElems rowLen"
  let ?a = "ceildiv_u (word_of_int totalLen) (block_work_size BlockSize VecElems)"
  let ?m = "ceildiv_u occupy ?e * ?e"
  have e: "1 \<le> unat ?e" "unat ?e < 2 ^ 31"
    using expected_grid_size_unat(2,3) [OF assms(1,2)] by blast+
  have sum: "unat occupy + unat ?e \<le> 2 ^ 32" using e(2) assms(3) by simp
  have m: "unat ?e dvd unat ?m" "unat occupy \<le> unat ?m"
    using ceildiv_u_mult [OF e(1) sum] by simp_all
  have "min ?a ?m = ?a \<or> min ?a ?m = ?m" by (simp add: min_def)
  then show ?thesis unfolding vecRows_gridSize_def using m by auto
qed

theorem vecRows_gridSize_multiple_witness:
  "(1::int) \<le> 7 \<and> (7::int) < 2 ^ 31 \<and> unat (5120 :: 32 word) < 2 ^ 31
   \<and> (vecRows_gridSize 256 4 5120 7 7000000 = ceildiv_u (word_of_int 7000000) (block_work_size 256 4)
      \<or> (unat (expected_grid_size 256 4 7) dvd unat (vecRows_gridSize 256 4 5120 7 7000000)
         \<and> unat (5120 :: 32 word) \<le> unat (vecRows_gridSize 256 4 5120 7 7000000)))"
  using vecRows_gridSize_multiple [of 7 5120 256 4 7000000] by simp

text \<open>
  C2 as stated fails for a small matrix: with \<open>rowLen = 7\<close>, \<open>nRows = 100\<close>, 256 threads
  of 4 scalars and an occupancy target of 5120 blocks, the grid is the single block that
  covers the 700 scalars, and 1 is not a multiple of \<open>7 / gcd(1024, 7) = 7\<close>.
\<close>

theorem vecRows_gridSize_multiple_counterexample:
  "launches (run 16 256 4 5120 1024 0 7 100 True) = [RowsMain 16 256 1 0 0 7 700]
   \<and> expected_grid_size 256 4 7 = 7
   \<and> vecRows_gridSize 256 4 5120 7 (totalLen_of 7 100) = 1
   \<and> \<not> unat (expected_grid_size 256 4 7) dvd unat (vecRows_gridSize 256 4 5120 7 (totalLen_of 7 100))"
  by code_simp

section \<open>Linewise::vectorCols: the loops\<close>

lemma divmod_unique:
  fixes p d m r :: int
  assumes "d * r + m = p" "0 \<le> m" "m < r"
  shows "p div r = d" and "p mod r = m"
proof -
  have p: "p = r * d + m" using assms(1) by (simp add: mult.commute)
  show "p div r = d" using p assms(2,3) by (rule int_div_pos_eq)
  show "p mod r = m" using p assms(2,3) by (rule int_mod_pos_eq)
qed

lemma vectorCols_while_eq:
  assumes "0 < rowLen"
  shows "vectorCols_while rowLen s =
     Some (if rowMod s < rowLen then s
           else s\<lparr>rowMod := rowMod s mod rowLen, rowDiv := rowDiv s + rowMod s div rowLen,
                  update := True\<rparr>)"
proof (induction "nat (rowMod s)" arbitrary: s rule: less_induct)
  case less
  show ?case
  proof (cases "rowMod s < rowLen")
    case True
    then show ?thesis by (subst vectorCols_while.simps) simp
  next
    case False
    let ?s1 = "s\<lparr>rowMod := rowMod s - rowLen, rowDiv := rowDiv s + 1, update := True\<rparr>"
    have lt: "nat (rowMod ?s1) < nat (rowMod s)" using False assms by simp
    have m: "(rowMod s - rowLen) mod rowLen = rowMod s mod rowLen" by simp
    have "((rowMod s - rowLen) + rowLen) div rowLen = (rowMod s - rowLen) div rowLen + 1"
      using assms by (intro div_add_self2) simp
    then have d: "(rowMod s - rowLen) div rowLen = rowMod s div rowLen - 1" by simp
    have small: "rowMod s - rowLen < rowLen \<Longrightarrow> rowMod s mod rowLen = rowMod s - rowLen \<and> rowMod s div rowLen = 1"
    proof -
      assume a: "rowMod s - rowLen < rowLen"
      have "(rowMod s - rowLen) mod rowLen = rowMod s - rowLen"
        using a False by (intro mod_pos_pos_trivial) simp_all
      moreover have "(rowMod s - rowLen) div rowLen = 0"
        using a False by (intro div_pos_pos_trivial) simp_all
      ultimately show ?thesis using m d by simp
    qed
    have "vectorCols_while rowLen s = vectorCols_while rowLen ?s1"
      using False by (subst vectorCols_while.simps) simp
    also have "\<dots> = Some (if rowMod ?s1 < rowLen then ?s1
           else ?s1\<lparr>rowMod := rowMod ?s1 mod rowLen, rowDiv := rowDiv ?s1 + rowMod ?s1 div rowLen,
                  update := True\<rparr>)"
      by (rule less [OF lt])
    also have "\<dots> = Some (s\<lparr>rowMod := rowMod s mod rowLen, rowDiv := rowDiv s + rowMod s div rowLen,
                  update := True\<rparr>)"
      using small by (simp add: m d)
    finally show ?thesis using False by simp
  qed
qed

lemma stores_of_append [simp]: "stores_of (xs @ ys) = stores_of xs @ stores_of ys"
  by (induction xs rule: stores_of.induct) simp_all

lemma stores_of_vec_loads: "list_all (vec_load_within lo hi) tr \<Longrightarrow> stores_of tr = []"
  by (induction tr rule: stores_of.induct) simp_all

lemma vec_load_within_mono:
  "vec_load_within lo hi a \<Longrightarrow> lo' \<le> lo \<Longrightarrow> hi \<le> hi' \<Longrightarrow> vec_load_within lo' hi' a"
  by (cases a) simp_all

lemma list_all_vec_load_within_mono:
  "list_all (vec_load_within lo hi) tr \<Longrightarrow> lo' \<le> lo \<Longrightarrow> hi \<le> hi'
     \<Longrightarrow> list_all (vec_load_within lo' hi') tr"
  by (induction tr) (auto intro: vec_load_within_mono)

lemma load_args_simps [simp]:
  "rowDiv (load_args vecs s) = rowDiv s" "rowMod (load_args vecs s) = rowMod s"
  "update (load_args vecs s) = update s" "applied (load_args vecs s) = applied s"
  "args (load_args vecs s) = map (\<lambda>v. v (rowDiv s)) vecs"
  "trace (load_args vecs s) = trace s @ map (\<lambda>l. LdVec l (rowDiv s)) [0..<length vecs]"
  by (simp_all add: load_args_def)

lemma list_all_LdVec: "lo \<le> j \<Longrightarrow> j \<le> hi \<Longrightarrow> list_all (vec_load_within lo hi) (map (\<lambda>l. LdVec l j) ls)"
  by (induction ls) simp_all

lemma vectorCols_elems_spec:
  assumes "0 < rowLen"
  shows "0 \<le> rowMod s \<Longrightarrow> rowMod s \<le> rowLen \<Longrightarrow> rowDiv s * rowLen + rowMod s = p
     \<Longrightarrow> args s = map (\<lambda>v. v (rowDiv s)) vecs
     \<Longrightarrow> elems_post rowLen op vecs p xs s (vectorCols_elems rowLen op vecs p xs s)"
proof (induction xs arbitrary: p s)
  case Nil
  then show ?case by (simp add: elems_post_def)
next
  case (Cons x xs)
  define s1 where "s1 = (if rowMod s = rowLen
                then load_args vecs (s\<lparr>rowMod := 0, rowDiv := rowDiv s + 1\<rparr>) else s)"
  define s2 where "s2 = s1\<lparr>applied := applied s1 @ [(p, rowDiv s1, rowMod s1)], rowMod := rowMod s1 + 1\<rparr>"
  define r where "r = vectorCols_elems rowLen op vecs (p + 1) xs s2"
  have res: "vectorCols_elems rowLen op vecs p (x # xs) s = (op x (args s1) # fst r, snd r)"
    by (simp add: Let_def s1_def s2_def r_def)
  have s1: "0 \<le> rowMod s1" "rowMod s1 < rowLen" "rowDiv s1 * rowLen + rowMod s1 = p"
    "args s1 = map (\<lambda>v. v (rowDiv s1)) vecs" "update s1 = update s" "applied s1 = applied s"
    using Cons.prems assms by (auto simp: s1_def algebra_simps)
  have dm: "rowDiv s1 = p div rowLen" "rowMod s1 = p mod rowLen"
    using divmod_unique [OF s1(3) s1(1) s1(2)] by simp_all
  obtain tr1 where tr1: "trace s1 = trace s @ tr1"
      "list_all (vec_load_within (p div rowLen) (p div rowLen)) tr1"
  proof (cases "rowMod s = rowLen")
    case True
    then have "trace s1 = trace s @ map (\<lambda>l. LdVec l (rowDiv s1)) [0..<length vecs]"
      by (simp add: s1_def)
    then show ?thesis using that [of "map (\<lambda>l. LdVec l (rowDiv s1)) [0..<length vecs]"]
      by (simp add: dm list_all_LdVec)
  next
    case False
    then show ?thesis using that [of "[]"] by (simp add: s1_def)
  qed
  have "elems_post rowLen op vecs (p + 1) xs s2 r"
    unfolding r_def using s1 by (intro Cons.IH) (simp_all add: s2_def algebra_simps)
  then have post: "fst r = map (\<lambda>k. op (xs ! k) (map (\<lambda>v. v ((p + 1 + int k) div rowLen)) vecs)) [0..<length xs]"
      "0 \<le> rowMod (snd r)" "rowMod (snd r) \<le> rowLen"
      "rowDiv (snd r) * rowLen + rowMod (snd r) = p + 1 + int (length xs)"
      "args (snd r) = map (\<lambda>v. v (rowDiv (snd r))) vecs"
      "update (snd r) = update s2"
      "applied (snd r) = applied s2 @ map (\<lambda>k. (p + 1 + int k, (p + 1 + int k) div rowLen, (p + 1 + int k) mod rowLen)) [0..<length xs]"
    and "\<exists>tr. trace (snd r) = trace s2 @ tr
            \<and> list_all (vec_load_within ((p + 1) div rowLen) ((p + 1 + int (length xs) - 1) div rowLen)) tr"
    by (simp_all add: elems_post_def)
  then obtain tr2 where tr2: "trace (snd r) = trace s2 @ tr2"
     "list_all (vec_load_within ((p + 1) div rowLen) ((p + int (length xs)) div rowLen)) tr2"
    by auto
  have le1: "p div rowLen \<le> (p + 1) div rowLen" using assms by (intro zdiv_mono1) simp_all
  have le2: "p div rowLen \<le> (p + int (length xs)) div rowLen" using assms by (intro zdiv_mono1) simp_all
  have tr: "trace (snd r) = trace s @ (tr1 @ tr2)" using tr1(1) tr2(1) by (simp add: s2_def)
  have ok: "list_all (vec_load_within (p div rowLen) ((p + int (length xs)) div rowLen)) (tr1 @ tr2)"
    using list_all_vec_load_within_mono [OF tr1(2) order_refl le2]
      list_all_vec_load_within_mono [OF tr2(2) le1 order_refl] by simp
  have shift: "\<And>k. p + 1 + int k = p + int (Suc k)" by simp
  have c1: "fst (vectorCols_elems rowLen op vecs p (x # xs) s)
      = map (\<lambda>k. op ((x # xs) ! k) (map (\<lambda>v. v ((p + int k) div rowLen)) vecs)) [0..<length (x # xs)]"
    unfolding res by (simp only: length_Cons map_upt_Suc fst_conv post(1) s1(4) dm(1) shift) simp
  have sndr: "snd (vectorCols_elems rowLen op vecs p (x # xs) s) = snd r"
    by (simp only: res snd_conv)
  have c4: "rowDiv (snd r) * rowLen + rowMod (snd r) = p + int (length (x # xs))"
    using post(4) by simp
  have c6: "update (snd r) = update s" using post(6) s1(5) by (simp add: s2_def)
  have c7: "applied (snd r)
      = applied s @ map (\<lambda>k. (p + int k, (p + int k) div rowLen, (p + int k) mod rowLen)) [0..<length (x # xs)]"
    by (simp only: length_Cons map_upt_Suc post(7) shift) (simp add: s2_def s1(6) dm)
  have c8: "\<exists>tr. trace (snd r) = trace s @ tr
            \<and> list_all (vec_load_within (p div rowLen) ((p + int (length (x # xs)) - 1) div rowLen)) tr"
    using tr ok by (intro exI [of _ "tr1 @ tr2"]) simp
  show ?case
    unfolding elems_post_def sndr
    by (intro conjI) (fact c1, fact post(2), fact post(3), fact c4, fact post(5), fact c6, fact c7, fact c8)
qed

lemma upto_conv_upt: "[0..V - 1] = map int [0..<nat V]"
proof (induction "nat V" arbitrary: V)
  case 0
  then show ?case by simp
next
  case (Suc n)
  then have V: "0 < V" "n = nat (V - 1)" by linarith+
  have "[0..V - 1] = [0..V - 1 - 1] @ [V - 1]" using V(1) by (intro upto_rec2) simp
  also have "[0..V - 1 - 1] = map int [0..<nat (V - 1)]" using Suc(1) [OF V(2)] .
  finally show ?case using V Suc(2) [symmetric] by simp
qed

lemma vectorCols_chunks_Nil: "0 < VecElems \<Longrightarrow> \<not> pos < e \<Longrightarrow> vectorCols_chunks VecElems pos e = []"
proof -
  assume a: "0 < VecElems" "\<not> pos < e"
  have "(e - pos - 1) div (WarpSize * VecElems) < 0" 
    using a by (intro div_neg_pos_less0) (simp_all add: WarpSize_def)
  then show ?thesis by (simp add: vectorCols_chunks_def)
qed

lemma vectorCols_chunks_Cons:
  assumes "0 < VecElems" "pos < e"
  shows "vectorCols_chunks VecElems pos e = pos # vectorCols_chunks VecElems (pos + WarpSize * VecElems) e"
proof -
  let ?S = "WarpSize * VecElems"
  have S: "0 < ?S" using assms(1) by (simp add: WarpSize_def)
  have "((e - (pos + ?S) - 1) + ?S) div ?S = (e - (pos + ?S) - 1) div ?S + 1"
    using S by (intro div_add_self2) (simp add: WarpSize_def)
  then have d: "(e - (pos + ?S) - 1) div ?S + 1 = (e - pos - 1) div ?S" by (simp add: algebra_simps)
  have nn: "0 \<le> (e - pos - 1) div ?S" using S assms(2) by (simp add: pos_imp_zdiv_nonneg_iff)
  then have n: "nat ((e - pos - 1) div ?S + 1) = Suc (nat ((e - pos - 1) div ?S))" by linarith
  show ?thesis
    unfolding vectorCols_chunks_def d n map_upt_Suc by (simp add: algebra_simps)
qed


lemma chunk_elems_Nil [simp]: "chunk_elems V [] = []"
  by (simp add: chunk_elems_def)

lemma chunk_elems_Cons: "chunk_elems V (c # cs) = map (\<lambda>k. c + int k) [0..<nat V] @ chunk_elems V cs"
  by (simp add: chunk_elems_def)

lemma vc_access_within_mono:
  "vc_access_within V rowLen cs a \<Longrightarrow> set cs \<subseteq> set cs' \<Longrightarrow> vc_access_within V rowLen cs' a"
  by (cases a) auto

lemma list_all_vc_access_within_mono:
  "list_all (vc_access_within V rowLen cs) tr \<Longrightarrow> set cs \<subseteq> set cs'
     \<Longrightarrow> list_all (vc_access_within V rowLen cs') tr"
  by (induction tr) (auto intro: vc_access_within_mono)

lemma vec_load_within_vc:
  "vec_load_within (c div rowLen) ((c + V - 1) div rowLen) a \<Longrightarrow> c \<in> set cs
     \<Longrightarrow> vc_access_within V rowLen cs a"
  by (cases a) auto

lemma list_all_vec_load_within_vc:
  "list_all (vec_load_within (c div rowLen) ((c + V - 1) div rowLen)) tr \<Longrightarrow> c \<in> set cs
     \<Longrightarrow> list_all (vc_access_within V rowLen cs) tr"
  by (induction tr) (auto intro: vec_load_within_vc)

lemma vectorCols_loop_spec:
  fixes s :: "'a vc_state"
  assumes "0 < rowLen" "0 < V"
  shows "0 \<le> rowMod s \<Longrightarrow> rowDiv s * rowLen + rowMod s = pos
     \<Longrightarrow> update s \<or> args s = map (\<lambda>v. v (rowDiv s)) vecs
     \<Longrightarrow> \<exists>s'. vectorCols_loop V rowLen op src vecs e pos s = Some s'
            \<and> loop_post V rowLen op src vecs e pos s s'"
proof (induction "nat (e - pos)" arbitrary: pos s rule: less_induct)
  case less
  show ?case
  proof (cases "pos < e")
    case False
    have "vectorCols_loop V rowLen op src vecs e pos s = Some s"
      using False by (subst vectorCols_loop.simps) simp
    moreover have "loop_post V rowLen op src vecs e pos s s"
      using False assms by (simp add: loop_post_def vectorCols_chunks_Nil)
    ultimately show ?thesis by blast
  next
    case True
    define s0 where "s0 = s\<lparr>trace := trace s @ [LdIn pos V]\<rparr>"
    define s1 where "s1 = (if rowMod s0 < rowLen then s0
           else s0\<lparr>rowMod := rowMod s0 mod rowLen, rowDiv := rowDiv s0 + rowMod s0 div rowLen,
                  update := True\<rparr>)"
    define v where "v = map (\<lambda>k. src (pos + k)) [0..V - 1]"
    define s2 where "s2 = (if update s1 then (load_args vecs s1)\<lparr>update := False\<rparr> else s1)"
    define r where "r = vectorCols_elems rowLen op vecs pos v s2"
    define s3 where "s3 = (snd r)\<lparr>trace := trace (snd r) @ [StOut pos (fst r)]\<rparr>"
    define s4 where "s4 = s3\<lparr>rowMod := rowMod s3 + (WarpSize - 1) * V\<rparr>"
    have w: "vectorCols_while rowLen s0 = Some s1"
      unfolding s1_def by (rule vectorCols_while_eq [OF assms(1)])
    have step: "vectorCols_loop V rowLen op src vecs e pos s
                  = vectorCols_loop V rowLen op src vecs e (pos + WarpSize * V) s4"
      using True
      by (subst vectorCols_loop.simps)
         (simp only: if_True w [unfolded s0_def] bind.bind_lunit Let_def
            v_def [symmetric] s2_def [symmetric] r_def [symmetric] s3_def [symmetric] s4_def [symmetric])
    have v: "v = map (\<lambda>k. src (pos + int k)) [0..<nat V]"
      unfolding v_def upto_conv_upt by (simp add: comp_def)
    have lv: "length v = nat V" by (simp add: v)
    \<comment> \<open>after the while loop\<close>
    have s1a: "rowDiv s1 * rowLen + rowMod s1 = pos \<and> 0 \<le> rowMod s1 \<and> rowMod s1 < rowLen"
    proof (cases "rowMod s < rowLen")
      case True
      then show ?thesis using less.prems by (simp add: s1_def s0_def)
    next
      case False
      have "(rowDiv s + rowMod s div rowLen) * rowLen + rowMod s mod rowLen
            = rowDiv s * rowLen + (rowMod s div rowLen * rowLen + rowMod s mod rowLen)"
        by (simp add: algebra_simps)
      also have "\<dots> = pos" using less.prems(2) by simp
      finally show ?thesis using False assms(1) by (simp add: s1_def s0_def)
    qed
    have dm1: "rowDiv s1 = pos div rowLen" "rowMod s1 = pos mod rowLen"
      using s1a divmod_unique [of "rowDiv s1" rowLen "rowMod s1" pos] by simp_all
    have s1b: "trace s1 = trace s @ [LdIn pos V]" "applied s1 = applied s"
      by (simp_all add: s1_def s0_def)
    have s1c: "update s1 \<or> args s1 = map (\<lambda>v. v (rowDiv s1)) vecs"
      using less.prems(3) by (auto simp: s1_def s0_def)
    \<comment> \<open>after the refresh of the arguments\<close>
    define tl2 :: "'a access list"
      where "tl2 = (if update s1 then map (\<lambda>l. LdVec l (pos div rowLen)) [0..<length vecs] else [])"
    have s2a: "rowDiv s2 = pos div rowLen" "rowMod s2 = pos mod rowLen" "update s2 = False"
      "applied s2 = applied s" "args s2 = map (\<lambda>v. v (rowDiv s2)) vecs"
      "trace s2 = trace s @ [LdIn pos V] @ tl2"
      using s1c by (auto simp: s2_def dm1 s1b tl2_def)
    have tl2: "list_all (vec_load_within (pos div rowLen) ((pos + V - 1) div rowLen)) tl2"
    proof -
      have "pos div rowLen \<le> (pos + V - 1) div rowLen" using assms by (intro zdiv_mono1) simp_all
      then show ?thesis by (simp add: tl2_def list_all_LdVec)
    qed
    \<comment> \<open>the inner loop\<close>
    have pm: "0 \<le> pos mod rowLen" "pos mod rowLen \<le> rowLen"
      "pos div rowLen * rowLen + pos mod rowLen = pos"
      using assms(1) by (simp_all add: less_imp_le)
    have "elems_post rowLen op vecs pos v s2 r"
      unfolding r_def using pm by (intro vectorCols_elems_spec [OF assms(1)]) (simp_all add: s2a)
    then have post: "fst r = map (\<lambda>k. op (v ! k) (map (\<lambda>v. v ((pos + int k) div rowLen)) vecs)) [0..<nat V]"
      "0 \<le> rowMod (snd r)" 
      "rowDiv (snd r) * rowLen + rowMod (snd r) = pos + V"
      "args (snd r) = map (\<lambda>v. v (rowDiv (snd r))) vecs"
      "update (snd r) = False"
      "applied (snd r) = applied s @ map (\<lambda>k. (pos + int k, (pos + int k) div rowLen, (pos + int k) mod rowLen)) [0..<nat V]"
      and "\<exists>tr. trace (snd r) = trace s2 @ tr
            \<and> list_all (vec_load_within (pos div rowLen) ((pos + V - 1) div rowLen)) tr"
      using assms(2) by (simp_all add: elems_post_def lv s2a)
    then obtain tr3 where tr3: "trace (snd r) = trace s2 @ tr3"
      "list_all (vec_load_within (pos div rowLen) ((pos + V - 1) div rowLen)) tr3"
      by auto
    have fr: "fst r = map (\<lambda>k. op (src (pos + int k)) (map (\<lambda>v. v ((pos + int k) div rowLen)) vecs)) [0..<nat V]"
      unfolding post(1) by (rule map_cong) (simp_all add: v)
    have lfr: "length (fst r) = nat V" by (simp add: fr)
    \<comment> \<open>the state at the next iteration\<close>
    have s4a: "0 \<le> rowMod s4" "rowDiv s4 * rowLen + rowMod s4 = pos + WarpSize * V"
      "update s4 \<or> args s4 = map (\<lambda>v. v (rowDiv s4)) vecs"
      "applied s4 = applied (snd r)" 
      "trace s4 = trace s @ ([LdIn pos V] @ tl2 @ tr3 @ [StOut pos (fst r)])"
      using post(2,3,4) assms(2) tr3(1) 
      by (simp_all add: s4_def s3_def WarpSize_def algebra_simps s2a)
    have lt: "nat (e - (pos + WarpSize * V)) < nat (e - pos)"
      using True assms(2) by (simp add: WarpSize_def)
    from less.hyps [OF lt s4a(1,2,3)]
    obtain s' where s': "vectorCols_loop V rowLen op src vecs e (pos + WarpSize * V) s4 = Some s'"
      "loop_post V rowLen op src vecs e (pos + WarpSize * V) s4 s'" by blast
    let ?cs = "vectorCols_chunks V (pos + WarpSize * V) e"
    have cs: "vectorCols_chunks V pos e = pos # ?cs" 
      using assms(2) True by (rule vectorCols_chunks_Cons)
    from s'(2) obtain tr' where
      ap: "applied s' = applied s4 @ map (\<lambda>p. (p, p div rowLen, p mod rowLen)) (chunk_elems V ?cs)"
      and tr': "trace s' = trace s4 @ tr'"
        "stores_of tr' = map (\<lambda>p. (p, op (src p) (map (\<lambda>v. v (p div rowLen)) vecs))) (chunk_elems V ?cs)"
        "list_all (vc_access_within V rowLen ?cs) tr'"
      unfolding loop_post_def by blast
    let ?new = "[LdIn pos V] @ tl2 @ tr3 @ [StOut pos (fst r)]"
    have g1: "applied s' = applied s @ map (\<lambda>p. (p, p div rowLen, p mod rowLen))
                                (chunk_elems V (vectorCols_chunks V pos e))"
      unfolding ap s4a(4) post(6) cs chunk_elems_Cons by (simp add: comp_def)
    have g2: "trace s' = trace s @ (?new @ tr')"
      unfolding tr'(1) s4a(5) by simp
    have st_new: "stores_of ?new = map (\<lambda>k. (pos + int k, op (src (pos + int k)) (map (\<lambda>v. v ((pos + int k) div rowLen)) vecs))) [0..<nat V]"
      using stores_of_vec_loads [OF tl2] stores_of_vec_loads [OF tr3(2)]
      by (simp add: lfr) (simp add: fr)
    have "stores_of (?new @ tr') = stores_of ?new @ stores_of tr'" by (rule stores_of_append)
    also have "\<dots> = map (\<lambda>p. (p, op (src p) (map (\<lambda>v. v (p div rowLen)) vecs)))
                                (chunk_elems V (vectorCols_chunks V pos e))"
      unfolding st_new tr'(2) cs chunk_elems_Cons by (simp add: comp_def)
    finally have g3: "stores_of (?new @ tr') = map (\<lambda>p. (p, op (src p) (map (\<lambda>v. v (p div rowLen)) vecs)))
                                (chunk_elems V (vectorCols_chunks V pos e))" .
    have in_cs: "pos \<in> set (pos # ?cs)" by simp
    have g4: "list_all (vc_access_within V rowLen (vectorCols_chunks V pos e)) (?new @ tr')"
      unfolding cs
      using list_all_vec_load_within_vc [OF tl2 in_cs] list_all_vec_load_within_vc [OF tr3(2) in_cs]
        list_all_vc_access_within_mono [OF tr'(3), of "pos # ?cs"] assms(2)
      by (simp add: lfr) auto
    have "loop_post V rowLen op src vecs e pos s s'"
      unfolding loop_post_def using g1 g2 g3 g4 by blast
    then show ?thesis using step s'(1) by simp
  qed
qed

section \<open>Linewise::vectorCols: row tracking\<close>

lemma sdiv_smod_nonneg:
  fixes a b :: int
  assumes "0 \<le> a" "0 < b"
  shows "a sdiv b = a div b" and "a smod b = a mod b"
  using assms by (simp_all add: signed_divide_int_def signed_modulo_int_def sgn_if)

lemma chunk_elems_ge:
  assumes "0 < V" "p \<in> set (chunk_elems V (vectorCols_chunks V pos e))"
  shows "pos \<le> p"
proof -
  from assms(2) obtain n k where "p = pos + int n * (WarpSize * V) + int k"
    by (auto simp: chunk_elems_def vectorCols_chunks_def)
  moreover have "0 \<le> int n * (WarpSize * V)" using assms(1) by (simp add: WarpSize_def)
  ultimately show ?thesis by linarith
qed

text \<open>
  C3. \<open>vectorCols\<close>, called as the kernels call it (at the offset \<open>pos \<ge> 0\<close> of a matrix
  element, with \<open>rowDiv = pos / rowLen\<close> and \<open>rowMod = pos % rowLen\<close>), terminates; at every
  call of \<open>op\<close> the pair \<open>(rowDiv, rowMod)\<close> that the loops maintain by increments equals
  \<open>(p / rowLen, p % rowLen)\<close> for the offset \<open>p\<close> of the element; and the scalar written at
  \<open>p\<close> is \<open>op\<close> of the matrix element and the vector elements at index \<open>p / rowLen\<close>. This
  holds for every \<open>rowLen \<ge> 1\<close> and \<open>VecElems \<ge> 1\<close>, also when \<open>rowLen < VecElems\<close>.
\<close>

theorem vectorCols_row_tracking:
  assumes "0 < rowLen" "0 < VecElems" "0 \<le> pos"
  shows "\<exists>s. vectorCols VecElems op src vecs pos e rowLen (pos sdiv rowLen) (pos smod rowLen) = Some s
      \<and> applied s = map (\<lambda>p. (p, p sdiv rowLen, p smod rowLen))
                      (chunk_elems VecElems (vectorCols_chunks VecElems pos e))
      \<and> stores_of (trace s) = map (\<lambda>p. (p, op (src p) (map (\<lambda>v. v (p sdiv rowLen)) vecs)))
                      (chunk_elems VecElems (vectorCols_chunks VecElems pos e))"
proof -
  let ?s0 = "\<lparr>rowDiv = pos sdiv rowLen, rowMod = pos smod rowLen, update = True, args = [],
              trace = [], applied = []\<rparr> :: 'a vc_state"
  have i: "pos sdiv rowLen = pos div rowLen" "pos smod rowLen = pos mod rowLen"
    using sdiv_smod_nonneg [OF assms(3,1)] by simp_all
  have "0 \<le> rowMod ?s0" "rowDiv ?s0 * rowLen + rowMod ?s0 = pos"
    "update ?s0 \<or> args ?s0 = map (\<lambda>v. v (rowDiv ?s0)) vecs"
    using assms(1) by (simp_all add: i)
  from vectorCols_loop_spec [OF assms(1,2) this, of op src e]
  obtain s where s: "vectorCols VecElems op src vecs pos e rowLen (pos sdiv rowLen) (pos smod rowLen) = Some s"
    "loop_post VecElems rowLen op src vecs e pos ?s0 s"
    unfolding vectorCols_def by blast
  let ?ps = "chunk_elems VecElems (vectorCols_chunks VecElems pos e)"
  have nn: "\<And>p. p \<in> set ?ps \<Longrightarrow> p sdiv rowLen = p div rowLen \<and> p smod rowLen = p mod rowLen"
    using chunk_elems_ge [OF assms(2)] assms(3) sdiv_smod_nonneg [OF _ assms(1)] by force
  have a: "map (\<lambda>p. (p, p div rowLen, p mod rowLen)) ?ps = map (\<lambda>p. (p, p sdiv rowLen, p smod rowLen)) ?ps"
    by (rule map_cong) (simp_all add: nn)
  have b: "map (\<lambda>p. (p, op (src p) (map (\<lambda>v. v (p div rowLen)) vecs))) ?ps
         = map (\<lambda>p. (p, op (src p) (map (\<lambda>v. v (p sdiv rowLen)) vecs))) ?ps"
    by (rule map_cong) (simp_all add: nn)
  from s(2) have "applied s = map (\<lambda>p. (p, p div rowLen, p mod rowLen)) ?ps"
    "stores_of (trace s) = map (\<lambda>p. (p, op (src p) (map (\<lambda>v. v (p div rowLen)) vecs))) ?ps"
    unfolding loop_post_def by auto
  then show ?thesis using s(1) a b by simp
qed

theorem vectorCols_row_tracking_witness:
  "(0::int) < 2 \<and> (0::int) < 4 \<and> (0::int) \<le> 0
   \<and> (\<exists>s. vectorCols 4 (\<lambda>a bs. a - sum_list bs) (\<lambda>i. i + 1) [\<lambda>i. 10 * (i + 1)] 0 8 2 (0 sdiv 2) (0 smod 2) = Some s
      \<and> applied s = map (\<lambda>p. (p, p sdiv 2, p smod 2)) (chunk_elems 4 (vectorCols_chunks 4 0 8))
      \<and> stores_of (trace s) = map (\<lambda>p. (p, (\<lambda>a bs. a - sum_list bs) ((\<lambda>i. i + 1) p) (map (\<lambda>v. v (p sdiv 2)) [\<lambda>i. 10 * (i + 1)])))
                      (chunk_elems 4 (vectorCols_chunks 4 0 8)))"
  using vectorCols_row_tracking [of 2 4 0 "\<lambda>a bs. a - sum_list bs" "\<lambda>i. i + 1" "[\<lambda>i. 10 * (i + 1)]" 8]
  by simp

text \<open>
  With \<open>rowLen = 2 < VecElems = 4\<close> one chunk holds two rows.
\<close>

lemma vectorCols_row_tracking_example: "map_option applied (vectorCols 4 (\<lambda>a bs. a - sum_list bs) (\<lambda>i. i + 1) [\<lambda>i. 10 * (i + 1)] 0 8 2 (0 sdiv 2) (0 smod 2))
   = Some [(0,0,0),(1,0,1),(2,1,0),(3,1,1)]"
  by code_simp

section \<open>The boundary kernel of the blocked strategy\<close>

lemma vectorCols_elems_shape:
  "length (fst (vectorCols_elems rowLen op vecs p xs s)) = length xs
   \<and> stores_of (trace (snd (vectorCols_elems rowLen op vecs p xs s))) = stores_of (trace s)"
proof (induction xs arbitrary: p s)
  case Nil
  then show ?case by simp
next
  case (Cons x xs)
  have l: "stores_of (map (\<lambda>l. LdVec l j) ls) = []" for j and ls :: "nat list"
    by (induction ls) simp_all
  show ?case using Cons.IH by (simp add: Let_def l)
qed

lemma vectorCols_loop_writes:
  fixes s :: "'a vc_state"
  assumes "0 < rowLen" "0 < V"
  shows "\<exists>s'. vectorCols_loop V rowLen op src vecs e pos s = Some s'
            \<and> map fst (stores_of (trace s'))
                = map fst (stores_of (trace s)) @ chunk_elems V (vectorCols_chunks V pos e)"
proof (induction "nat (e - pos)" arbitrary: pos s rule: less_induct)
  case less
  show ?case
  proof (cases "pos < e")
    case False
    have "vectorCols_loop V rowLen op src vecs e pos s = Some s"
      using False by (subst vectorCols_loop.simps) simp
    then show ?thesis using False assms by (simp add: vectorCols_chunks_Nil)
  next
    case True
    define s0 where "s0 = s\<lparr>trace := trace s @ [LdIn pos V]\<rparr>"
    define s1 where "s1 = (if rowMod s0 < rowLen then s0
           else s0\<lparr>rowMod := rowMod s0 mod rowLen, rowDiv := rowDiv s0 + rowMod s0 div rowLen,
                  update := True\<rparr>)"
    define v where "v = map (\<lambda>k. src (pos + k)) [0..V - 1]"
    define s2 where "s2 = (if update s1 then (load_args vecs s1)\<lparr>update := False\<rparr> else s1)"
    define r where "r = vectorCols_elems rowLen op vecs pos v s2"
    define s3 where "s3 = (snd r)\<lparr>trace := trace (snd r) @ [StOut pos (fst r)]\<rparr>"
    define s4 where "s4 = s3\<lparr>rowMod := rowMod s3 + (WarpSize - 1) * V\<rparr>"
    have w: "vectorCols_while rowLen s0 = Some s1"
      unfolding s1_def by (rule vectorCols_while_eq [OF assms(1)])
    have step: "vectorCols_loop V rowLen op src vecs e pos s
                  = vectorCols_loop V rowLen op src vecs e (pos + WarpSize * V) s4"
      using True
      by (subst vectorCols_loop.simps)
         (simp only: if_True w [unfolded s0_def] bind.bind_lunit Let_def
            v_def [symmetric] s2_def [symmetric] r_def [symmetric] s3_def [symmetric] s4_def [symmetric])
    have lv: "length v = nat V" by (simp add: v_def upto_conv_upt)
    have l: "stores_of (map (\<lambda>l. LdVec l j) ls) = ([] :: (int \<times> 'a) list)" for j and ls :: "nat list"
      by (induction ls) simp_all
    have st2: "stores_of (trace s2) = stores_of (trace s)"
      by (simp add: s2_def s1_def s0_def l)
    have sh: "length (fst r) = nat V" "stores_of (trace (snd r)) = stores_of (trace s)"
      using vectorCols_elems_shape [of rowLen op vecs pos v s2] by (simp_all add: r_def lv st2)
    have st4: "map fst (stores_of (trace s4)) = map fst (stores_of (trace s)) @ map (\<lambda>k. pos + int k) [0..<nat V]"
      by (simp add: s4_def s3_def sh comp_def)
    have lt: "nat (e - (pos + WarpSize * V)) < nat (e - pos)"
      using True assms(2) by (simp add: WarpSize_def)
    from less.hyps [OF lt, of s4]
    obtain s' where s': "vectorCols_loop V rowLen op src vecs e (pos + WarpSize * V) s4 = Some s'"
      "map fst (stores_of (trace s'))
         = map fst (stores_of (trace s4)) @ chunk_elems V (vectorCols_chunks V (pos + WarpSize * V) e)"
      by blast
    have cs: "vectorCols_chunks V pos e = pos # vectorCols_chunks V (pos + WarpSize * V) e"
      using assms(2) True by (rule vectorCols_chunks_Cons)
    show ?thesis
      unfolding step cs chunk_elems_Cons using s' st4 by simp
  qed
qed

lemma vectorCols_writes:
  assumes "0 < rowLen" "0 < V"
  shows "vectorCols V op src vecs pos e rowLen d m \<noteq> None"
    and "writes_of (vectorCols V op src vecs pos e rowLen d m) = chunk_elems V (vectorCols_chunks V pos e)"
  using vectorCols_loop_writes [OF assms, of op src vecs e pos
      "\<lparr>rowDiv = d, rowMod = m, update = True, args = [], trace = [], applied = []\<rparr>"]
  by (auto simp: vectorCols_def writes_of_def)

lemma chunks_one: "vectorCols_chunks 1 pos (pos + 1) = [pos]" "vectorCols_chunks 1 pos pos = []"
proof -
  have "vectorCols_chunks 1 pos (pos + 1) = pos # vectorCols_chunks 1 (pos + WarpSize * 1) (pos + 1)"
    by (rule vectorCols_chunks_Cons) simp_all
  also have "vectorCols_chunks 1 (pos + WarpSize * 1) (pos + 1) = []"
    by (rule vectorCols_chunks_Nil) (simp_all add: WarpSize_def)
  finally show "vectorCols_chunks 1 pos (pos + 1) = [pos]" .
  show "vectorCols_chunks 1 pos pos = []" by (rule vectorCols_chunks_Nil) simp_all
qed

lemma ColsTail_thread_writes:
  assumes "0 < rowLen"
  shows "matrixLinewiseVecColsTailKernel op src vecs arrOffset arrTail rowLen len blockIdx threadIdx \<noteq> None"
    and "writes_of (matrixLinewiseVecColsTailKernel op src vecs arrOffset arrTail rowLen len blockIdx threadIdx)
       = (if blockIdx = 0 then (if threadIdx < arrOffset then [threadIdx] else [])
          else (if arrTail + threadIdx < len then [arrTail + threadIdx] else []))"
proof -
  have one: "(0::int) < 1" by simp
  note w = vectorCols_writes [OF assms one]
  show "matrixLinewiseVecColsTailKernel op src vecs arrOffset arrTail rowLen len blockIdx threadIdx \<noteq> None"
    unfolding matrixLinewiseVecColsTailKernel_def Let_def by (simp add: w(1))
  show "writes_of (matrixLinewiseVecColsTailKernel op src vecs arrOffset arrTail rowLen len blockIdx threadIdx)
       = (if blockIdx = 0 then (if threadIdx < arrOffset then [threadIdx] else [])
          else (if arrTail + threadIdx < len then [arrTail + threadIdx] else []))"
    unfolding matrixLinewiseVecColsTailKernel_def Let_def
    by (simp add: w(2) chunks_one chunk_elems_def)
qed


text \<open>
  The boundary kernel of \<open>matrixLinewiseVecCols\<close>, block by block. For every invocation
  (\<open>VecBytes \<ge> 1\<close>, \<open>sizeof(Type) \<ge> 1\<close>, \<open>rowLen \<ge> 1\<close>, any address of \<open>in\<close> and any
  number of rows), the length \<open>alignedOff\<close> of the head and the length
  \<open>totalLen - alignedEnd\<close> of the tail are not negative and strictly smaller than
  \<open>MaxOffset = max(WarpSize, VecBytes)\<close>, the block dimension of the boundary kernel. Every
  thread of \<open>matrixLinewiseVecColsTailKernel\<close> terminates and writes at most one scalar;
  every offset of the head \<open>[0, alignedOff)\<close> is written by exactly one of the \<open>MaxOffset\<close>
  threads of block 0, and every offset of the tail \<open>[alignedEnd, totalLen)\<close> by exactly one
  of the threads of block 1. (An offset that lies in both regions is written by a thread
  of each block.)
\<close>

lemma boundary_blocks_cover:
  assumes "0 < VecBytes" "0 < sz" "0 < rowLen"
  shows "0 \<le> alignedOff_of VecBytes sz inA
     \<and> alignedOff_of VecBytes sz inA < MaxOffset_of VecBytes
     \<and> 0 \<le> totalLen_of rowLen nRows - alignedEnd_of VecBytes sz inA (totalLen_of rowLen nRows)
     \<and> totalLen_of rowLen nRows - alignedEnd_of VecBytes sz inA (totalLen_of rowLen nRows)
          < MaxOffset_of VecBytes
     \<and> (\<forall>b t. matrixLinewiseVecColsTailKernel op src vecs (alignedOff_of VecBytes sz inA)
                 (alignedEnd_of VecBytes sz inA (totalLen_of rowLen nRows)) rowLen
                 (totalLen_of rowLen nRows) b t \<noteq> None)
     \<and> (\<forall>b t. length (writes_of (matrixLinewiseVecColsTailKernel op src vecs
                 (alignedOff_of VecBytes sz inA)
                 (alignedEnd_of VecBytes sz inA (totalLen_of rowLen nRows)) rowLen
                 (totalLen_of rowLen nRows) b t)) \<le> 1)
     \<and> (\<forall>i. 0 \<le> i \<and> i < alignedOff_of VecBytes sz inA \<longrightarrow>
            (\<exists>!t. 0 \<le> t \<and> t < MaxOffset_of VecBytes
                 \<and> i \<in> set (writes_of (matrixLinewiseVecColsTailKernel op src vecs
                      (alignedOff_of VecBytes sz inA)
                      (alignedEnd_of VecBytes sz inA (totalLen_of rowLen nRows)) rowLen
                      (totalLen_of rowLen nRows) 0 t))))
     \<and> (\<forall>i. alignedEnd_of VecBytes sz inA (totalLen_of rowLen nRows) \<le> i
              \<and> i < totalLen_of rowLen nRows \<longrightarrow>
            (\<exists>!t. 0 \<le> t \<and> t < MaxOffset_of VecBytes
                 \<and> i \<in> set (writes_of (matrixLinewiseVecColsTailKernel op src vecs
                      (alignedOff_of VecBytes sz inA)
                      (alignedEnd_of VecBytes sz inA (totalLen_of rowLen nRows)) rowLen
                      (totalLen_of rowLen nRows) 1 t))))"
proof -
  define off where "off = alignedOff_of VecBytes sz inA"
  define len where "len = totalLen_of rowLen nRows"
  define tail where "tail = alignedEnd_of VecBytes sz inA len"
  define M where "M = MaxOffset_of VecBytes"
  have M: "VecBytes \<le> M" by (simp add: M_def MaxOffset_of_def)
  have b1: "0 \<le> off" "off < M"
    using alignedOff_bounds [OF assms(1,2), where inA = inA] M by (simp_all add: off_def)
  have b2: "0 \<le> len - tail" "len - tail < M"
    using alignedEnd_bounds [OF assms(1,2), where inA = inA and totalLen = len] M
    by (simp_all add: tail_def)
  note w = ColsTail_thread_writes [OF assms(3), of op src vecs off tail len]
  have t: "\<forall>b t. matrixLinewiseVecColsTailKernel op src vecs off tail rowLen len b t \<noteq> None"
    using w(1) by blast
  have l: "\<forall>b t. length (writes_of (matrixLinewiseVecColsTailKernel op src vecs off tail rowLen len b t)) \<le> 1"
    by (simp add: w(2))
  have h: "\<forall>i. 0 \<le> i \<and> i < off \<longrightarrow>
            (\<exists>!t. 0 \<le> t \<and> t < M
                 \<and> i \<in> set (writes_of (matrixLinewiseVecColsTailKernel op src vecs off tail rowLen len 0 t)))"
  proof (intro allI impI)
    fix i assume i: "0 \<le> i \<and> i < off"
    show "\<exists>!t. 0 \<le> t \<and> t < M
                 \<and> i \<in> set (writes_of (matrixLinewiseVecColsTailKernel op src vecs off tail rowLen len 0 t))"
    proof (rule ex1I [of _ i])
      show "0 \<le> i \<and> i < M \<and> i \<in> set (writes_of (matrixLinewiseVecColsTailKernel op src vecs off tail rowLen len 0 i))"
        using i b1 by (simp add: w(2))
    next
      fix t assume "0 \<le> t \<and> t < M
                 \<and> i \<in> set (writes_of (matrixLinewiseVecColsTailKernel op src vecs off tail rowLen len 0 t))"
      then show "t = i" by (simp add: w(2) split: if_splits)
    qed
  qed
  have tl: "\<forall>i. tail \<le> i \<and> i < len \<longrightarrow>
            (\<exists>!t. 0 \<le> t \<and> t < M
                 \<and> i \<in> set (writes_of (matrixLinewiseVecColsTailKernel op src vecs off tail rowLen len 1 t)))"
  proof (intro allI impI)
    fix i assume i: "tail \<le> i \<and> i < len"
    show "\<exists>!t. 0 \<le> t \<and> t < M
                 \<and> i \<in> set (writes_of (matrixLinewiseVecColsTailKernel op src vecs off tail rowLen len 1 t))"
    proof (rule ex1I [of _ "i - tail"])
      show "0 \<le> i - tail \<and> i - tail < M \<and> i \<in> set (writes_of (matrixLinewiseVecColsTailKernel op src vecs off tail rowLen len 1 (i - tail)))"
        using i b2 by (simp add: w(2))
    next
      fix t assume "0 \<le> t \<and> t < M
                 \<and> i \<in> set (writes_of (matrixLinewiseVecColsTailKernel op src vecs off tail rowLen len 1 t))"
      then show "t = i - tail" by (simp add: w(2) split: if_splits)
    qed
  qed
  show ?thesis
    using b1 b2 t l h tl unfolding off_def tail_def len_def M_def by blast
qed

lemma boundary_blocks_cover_example:
  "(0::int) < 16 \<and> (0::int) < 4 \<and> (0::int) < 4
     \<and> 0 \<le> alignedOff_of 16 4 4
     \<and> alignedOff_of 16 4 4 < MaxOffset_of 16
     \<and> 0 \<le> totalLen_of 4 3 - alignedEnd_of 16 4 4 (totalLen_of 4 3)
     \<and> totalLen_of 4 3 - alignedEnd_of 16 4 4 (totalLen_of 4 3) < MaxOffset_of 16
     \<and> (\<forall>b t. matrixLinewiseVecColsTailKernel (\<lambda>a bs. a - sum_list bs) (\<lambda>i. i + 1) [\<lambda>i. 10 * (i + 1)]
                 (alignedOff_of 16 4 4) (alignedEnd_of 16 4 4 (totalLen_of 4 3)) 4 (totalLen_of 4 3) b t \<noteq> None)
     \<and> (\<forall>b t. length (writes_of (matrixLinewiseVecColsTailKernel (\<lambda>a bs. a - sum_list bs) (\<lambda>i. i + 1) [\<lambda>i. 10 * (i + 1)]
                 (alignedOff_of 16 4 4) (alignedEnd_of 16 4 4 (totalLen_of 4 3)) 4 (totalLen_of 4 3) b t)) \<le> 1)
     \<and> (\<exists>!t. 0 \<le> t \<and> t < MaxOffset_of 16
                 \<and> 2 \<in> set (writes_of (matrixLinewiseVecColsTailKernel (\<lambda>a bs. a - sum_list bs) (\<lambda>i. i + 1) [\<lambda>i. 10 * (i + 1)]
                      (alignedOff_of 16 4 4) (alignedEnd_of 16 4 4 (totalLen_of 4 3)) 4 (totalLen_of 4 3) 0 t)))
     \<and> (\<exists>!t. 0 \<le> t \<and> t < MaxOffset_of 16
                 \<and> 11 \<in> set (writes_of (matrixLinewiseVecColsTailKernel (\<lambda>a bs. a - sum_list bs) (\<lambda>i. i + 1) [\<lambda>i. 10 * (i + 1)]
                      (alignedOff_of 16 4 4) (alignedEnd_of 16 4 4 (totalLen_of 4 3)) 4 (totalLen_of 4 3) 1 t)))"
proof -
  have v: "alignedOff_of 16 4 4 = 3" "alignedEnd_of 16 4 4 12 = 11" "totalLen_of 4 3 = 12"
    by (simp_all add: alignedOff_of_def alignedEnd_of_def totalLen_of_def ptr_diff_def roundUp_def roundDown_def)
  have h: "(0::int) \<le> 2 \<and> (2::int) < alignedOff_of 16 4 4"
    "alignedEnd_of 16 4 4 (totalLen_of 4 3) \<le> 11 \<and> 11 < totalLen_of 4 3"
    by (simp_all add: v)
  have p: "(0::int) < 16" "(0::int) < 4" by simp_all
  note T = boundary_blocks_cover [OF p(1) p(2) p(2), where inA = 4 and nRows = 3
      and op = "\<lambda>a bs. a - sum_list bs" and src = "\<lambda>i. i + 1" and vecs = "[\<lambda>i. 10 * (i + 1)]"]
  note T1 = T [THEN conjunct1]
  note T2 = T [THEN conjunct2, THEN conjunct1]
  note T3 = T [THEN conjunct2, THEN conjunct2, THEN conjunct1]
  note T4 = T [THEN conjunct2, THEN conjunct2, THEN conjunct2, THEN conjunct1]
  note T5 = T [THEN conjunct2, THEN conjunct2, THEN conjunct2, THEN conjunct2, THEN conjunct1]
  note T6 = T [THEN conjunct2, THEN conjunct2, THEN conjunct2, THEN conjunct2, THEN conjunct2,
      THEN conjunct1]
  note T7 = T [THEN conjunct2, THEN conjunct2, THEN conjunct2, THEN conjunct2, THEN conjunct2,
      THEN conjunct2, THEN conjunct1, THEN spec, THEN mp, OF h(1)]
  note T8 = T [THEN conjunct2, THEN conjunct2, THEN conjunct2, THEN conjunct2, THEN conjunct2,
      THEN conjunct2, THEN conjunct2, THEN spec, THEN mp, OF h(2)]
  show ?thesis
    by (intro conjI) (rule p(1), rule p(2), rule p(2), rule T1, rule T2, rule T3, rule T4,
        rule T5, rule T6, rule T7, rule T8)
qed

section \<open>Linewise::loadVec\<close>

lemma loadVec_while_eq:
  assumes "0 < rowLen"
  shows "loadVec_while rowLen j = Some (if j < rowLen then j else j mod rowLen)"
proof (induction "nat j" arbitrary: j rule: less_induct)
  case less
  show ?case
  proof (cases "j < rowLen")
    case True
    then show ?thesis by (subst loadVec_while.simps) simp
  next
    case False
    have lt: "nat (j - rowLen) < nat j" using False assms by simp
    have m: "(j - rowLen) mod rowLen = j mod rowLen" by simp
    have small: "j - rowLen < rowLen \<Longrightarrow> j mod rowLen = j - rowLen"
    proof -
      assume a: "j - rowLen < rowLen"
      have "(j - rowLen) mod rowLen = j - rowLen"
        using a False by (intro mod_pos_pos_trivial) simp_all
      then show ?thesis using m by simp
    qed
    have "loadVec_while rowLen j = loadVec_while rowLen (j - rowLen)"
      using False by (subst loadVec_while.simps) simp
    also have "\<dots> = Some (if j - rowLen < rowLen then j - rowLen else (j - rowLen) mod rowLen)"
      by (rule less [OF lt])
    also have "\<dots> = Some (j mod rowLen)" using small by (simp add: m)
    finally show ?thesis using False by simp
  qed
qed

lemma loadVec_while_nonneg:
  assumes "0 < rowLen" "0 \<le> j"
  shows "loadVec_while rowLen j = Some (j mod rowLen)"
  using loadVec_while_eq [OF assms(1), of j] assms by (simp add: mod_pos_pos_trivial)


lemma dvd_diff_self_iff: "(b::int) dvd a - b \<longleftrightarrow> b dvd a"
proof -
  have "a - b = a + (- b)" by simp
  moreover have "b dvd - b" by simp
  ultimately show ?thesis by (metis dvd_add_left_iff)
qed

lemma loadVec_fill_spec:
  fixes st :: "(int \<Rightarrow> 'a) \<times> 'a access list"
  assumes "0 < rowLen" "0 < BS"
  shows "0 \<le> j \<Longrightarrow> \<exists>st'. loadVec_fill V BS rowLen l p off k j st = Some st'
     \<and> (\<forall>x. fst st' x = (if k \<le> x - off \<and> x - off < V * BS \<and> BS dvd (x - off - k)
                          then p ((j - k + (x - off)) mod rowLen) else fst st x))
     \<and> (\<exists>tr. snd st' = snd st @ tr \<and> list_all (vec_load_within 0 (rowLen - 1)) tr)"
proof (induction "nat (V * BS - k)" arbitrary: k j st rule: less_induct)
  case less
  show ?case
  proof (cases "k < V * BS")
    case False
    have "loadVec_fill V BS rowLen l p off k j st = Some st"
      using False by (subst loadVec_fill.simps) simp
    then show ?thesis using False by auto
  next
    case True
    define j1 where "j1 = j mod rowLen"
    define st1 where "st1 = ((fst st)(off + k := p j1), snd st @ [LdVec l j1])"
    have j1: "0 \<le> j1" "j1 < rowLen" using assms(1) by (simp_all add: j1_def)
    have w: "loadVec_while rowLen j = Some j1"
      unfolding j1_def using assms(1) less.prems by (rule loadVec_while_nonneg)
    have step: "loadVec_fill V BS rowLen l p off k j st
                 = loadVec_fill V BS rowLen l p off (k + BS) (j1 + BS) st1"
      using True by (subst loadVec_fill.simps) (simp add: w st1_def)
    have lt: "nat (V * BS - (k + BS)) < nat (V * BS - k)" using True assms(2) by simp
    have nn: "0 \<le> j1 + BS" using j1(1) assms(2) by simp
    from less.hyps [OF lt nn, of st1]
    obtain st' tr where st': "loadVec_fill V BS rowLen l p off (k + BS) (j1 + BS) st1 = Some st'"
      and sh: "\<And>x. fst st' x = (if k + BS \<le> x - off \<and> x - off < V * BS \<and> BS dvd (x - off - (k + BS))
                          then p ((j1 + BS - (k + BS) + (x - off)) mod rowLen) else fst st1 x)"
      and tr: "snd st' = snd st1 @ tr" "list_all (vec_load_within 0 (rowLen - 1)) tr"
      by blast
    have val: "(j1 - k + d) mod rowLen = (j - k + d) mod rowLen" for d
    proof -
      have "(j1 - k + d) mod rowLen = (j mod rowLen + (d - k)) mod rowLen"
        by (simp add: j1_def algebra_simps)
      also have "\<dots> = (j + (d - k)) mod rowLen" by (rule mod_add_left_eq)
      finally show ?thesis by (simp add: algebra_simps)
    qed
    have cell: "fst st' x = (if k \<le> x - off \<and> x - off < V * BS \<and> BS dvd (x - off - k)
                          then p ((j - k + (x - off)) mod rowLen) else fst st x)" for x
    proof (cases "x - off = k")
      case eq: True
      then have x: "x = off + k" by simp
      have "fst st' x = fst st1 x" using assms(2) by (simp add: sh x)
      also have "\<dots> = p j1" by (simp add: st1_def x)
      finally show ?thesis using True by (simp add: x j1_def)
    next
      case ne: False
      then have st1x: "fst st1 x = fst st x" by (auto simp: st1_def)
      have dv: "BS dvd (x - off - (k + BS)) \<longleftrightarrow> BS dvd (x - off - k)"
        using dvd_diff_self_iff [of BS "x - off - k"] by (simp add: algebra_simps)
      show ?thesis
      proof (cases "k + BS \<le> x - off \<and> x - off < V * BS \<and> BS dvd (x - off - (k + BS))")
        case c: True
        then have y: "k \<le> x - off \<and> x - off < V * BS \<and> BS dvd (x - off - k)"
          using assms(2) dv by simp
        have "fst st' x = p ((j1 + BS - (k + BS) + (x - off)) mod rowLen)"
          by (simp only: sh [of x] if_P [OF c])
        also have "\<dots> = p ((j - k + (x - off)) mod rowLen)" using val [of "x - off"] by simp
        finally show ?thesis by (simp only: if_P [OF y])
      next
        case c: False
        have n: "\<not> (k \<le> x - off \<and> x - off < V * BS \<and> BS dvd (x - off - k))"
        proof
          assume a: "k \<le> x - off \<and> x - off < V * BS \<and> BS dvd (x - off - k)"
          then have "0 < x - off - k" using ne by simp
          with a have "BS \<le> x - off - k" by (intro zdvd_imp_le) simp_all
          with a dv c show False by simp
        qed
        have "fst st' x = fst st1 x" by (simp only: sh [of x] if_not_P [OF c])
        then show ?thesis by (simp only: if_not_P [OF n] st1x)
      qed
    qed
    have "snd st' = snd st @ ([LdVec l j1] @ tr)" using tr(1) by (simp add: st1_def)
    moreover have "list_all (vec_load_within 0 (rowLen - 1)) ([LdVec l j1] @ tr)"
      using tr(2) j1 by simp
    ultimately show ?thesis using step st' cell by auto
  qed
qed


lemma loadVec_fill_block_spec:
  fixes st :: "(int \<Rightarrow> 'a) \<times> 'a access list"
  assumes "0 < rowLen" "0 < BS" "0 \<le> blockOffset"
  shows "(\<And>t. t \<in> set ts \<Longrightarrow> 0 \<le> t) \<Longrightarrow>
     \<exists>st'. loadVec_fill_block V BS rowLen l p off blockOffset ts st = Some st'
     \<and> (\<forall>x. fst st' x = (if \<exists>t\<in>set ts. t \<le> x - off \<and> x - off < V * BS \<and> BS dvd (x - off - t)
                          then p ((blockOffset + (x - off)) mod rowLen) else fst st x))
     \<and> (\<exists>tr. snd st' = snd st @ tr \<and> list_all (vec_load_within 0 (rowLen - 1)) tr)"
proof (induction ts arbitrary: st)
  case Nil
  then show ?case by simp
next
  case (Cons t ts)
  have nn: "0 \<le> blockOffset + t" using Cons.prems assms(3) by simp
  from loadVec_fill_spec [OF assms(1,2) nn, where V = V and l = l and p = p and off = off
      and k = t and st = st]
  obtain st1 tr1 where st1: "loadVec_fill V BS rowLen l p off t (blockOffset + t) st = Some st1"
    and c1: "\<And>x. fst st1 x = (if t \<le> x - off \<and> x - off < V * BS \<and> BS dvd (x - off - t)
                          then p ((blockOffset + t - t + (x - off)) mod rowLen) else fst st x)"
    and tr1: "snd st1 = snd st @ tr1" "list_all (vec_load_within 0 (rowLen - 1)) tr1"
    by blast
  have "\<And>t. t \<in> set ts \<Longrightarrow> 0 \<le> t" using Cons.prems by simp
  from Cons.IH [OF this, of st1]
  obtain st' tr2 where st': "loadVec_fill_block V BS rowLen l p off blockOffset ts st1 = Some st'"
    and c2: "\<And>x. fst st' x = (if \<exists>t\<in>set ts. t \<le> x - off \<and> x - off < V * BS \<and> BS dvd (x - off - t)
                          then p ((blockOffset + (x - off)) mod rowLen) else fst st1 x)"
    and tr2: "snd st' = snd st1 @ tr2" "list_all (vec_load_within 0 (rowLen - 1)) tr2"
    by blast
  have r: "loadVec_fill_block V BS rowLen l p off blockOffset (t # ts) st = Some st'"
    by (simp add: st1 st')
  have c: "fst st' x = (if \<exists>t'\<in>set (t # ts). t' \<le> x - off \<and> x - off < V * BS \<and> BS dvd (x - off - t')
                          then p ((blockOffset + (x - off)) mod rowLen) else fst st x)" for x
    by (auto simp: c2 c1)
  have "snd st' = snd st @ (tr1 @ tr2)" "list_all (vec_load_within 0 (rowLen - 1)) (tr1 @ tr2)"
    using tr1 tr2 by simp_all
  then show ?case using r c by blast
qed

lemma block_threads_cover:
  assumes "0 < BS"
  shows "(\<exists>t\<in>set [0..BS - 1]. t \<le> d \<and> d < n \<and> BS dvd (d - t)) \<longleftrightarrow> 0 \<le> d \<and> d < n"
proof
  assume "\<exists>t\<in>set [0..BS - 1]. t \<le> d \<and> d < n \<and> BS dvd (d - t)"
  then show "0 \<le> d \<and> d < n" by auto
next
  assume a: "0 \<le> d \<and> d < n"
  have "d mod BS \<in> set [0..BS - 1]" using assms by simp
  moreover have "d mod BS \<le> d" using a assms by (simp add: zmod_le_nonneg_dividend)
  moreover have "BS dvd (d - d mod BS)" by (simp add: dvd_minus_mod)
  ultimately show "\<exists>t\<in>set [0..BS - 1]. t \<le> d \<and> d < n \<and> BS dvd (d - t)" using a by blast
qed

lemma loadVec_block_shm:
  fixes shm :: "int \<Rightarrow> 'a"
  assumes "0 < rowLen" "0 < BS" "0 \<le> blockOffset"
  shows "\<exists>st'. loadVec_fill_block V BS rowLen l p off blockOffset [0..BS - 1] (shm, tr0) = Some st'
     \<and> (\<forall>x. fst st' x = (if 0 \<le> x - off \<and> x - off < V * BS
                          then p ((blockOffset + (x - off)) mod rowLen) else shm x))
     \<and> (\<exists>tr. snd st' = tr0 @ tr \<and> list_all (vec_load_within 0 (rowLen - 1)) tr)"
proof -
  have pre: "\<And>t. t \<in> set [0..BS - 1] \<Longrightarrow> 0 \<le> t" by simp
  note L = loadVec_fill_block_spec [where ts = "[0..BS - 1]" and V = V and l = l and p = p
      and off = off and st = "(shm, tr0)", OF assms pre]
  from L obtain st' where st': "loadVec_fill_block V BS rowLen l p off blockOffset [0..BS - 1] (shm, tr0) = Some st'"
    and c: "\<And>x. fst st' x = (if \<exists>t\<in>set [0..BS - 1]. t \<le> x - off \<and> x - off < V * BS \<and> BS dvd (x - off - t)
                          then p ((blockOffset + (x - off)) mod rowLen) else fst (shm, tr0) x)"
    and tr: "\<exists>tr. snd st' = snd (shm, tr0) @ tr \<and> list_all (vec_load_within 0 (rowLen - 1)) tr"
    by blast
  have "\<forall>x. fst st' x = (if 0 \<le> x - off \<and> x - off < V * BS
                          then p ((blockOffset + (x - off)) mod rowLen) else shm x)"
    using c unfolding block_threads_cover [OF assms(2)] by simp
  then show ?thesis using st' tr by simp
qed




lemma loadVec_chunk_example: "loadVec 4 32 (\<lambda>_. 0) 0 0 (\<lambda>i. 10 * i) 5 7 2 = Some [60, 0, 10, 20]" by code_simp

section \<open>The blocked strategy without overflow\<close>

text \<open>
  This section shows that a call with \<open>alongLines = false\<close> computes the stated result
  when the index arithmetic does not overflow and the matrix reaches a boundary of the
  vector width. The accesses of the threads are combined block by block and launch by
  launch; \<open>trace_ok\<close> is kept along the way.
\<close>

lemma those_map_Some:
  "(\<And>x. x \<in> set xs \<Longrightarrow> f x = Some (g x)) \<Longrightarrow> those (map f xs) = Some (map g xs)"
  by (induction xs) simp_all

lemma concat_map_Nil: "concat (map (\<lambda>x. []) xs) = []"
  by (induction xs) simp_all

lemma stores_of_concat: "stores_of (concat trs) = concat (map stores_of trs)"
  by (induction trs) (simp_all add: stores_of_append)

lemma store_other: "i \<notin> fst ` set (stores_of [a]) \<Longrightarrow> store a mem i = mem i"
proof (cases a)
  case (StOut p ws)
  have "\<And>mem. i \<notin> (\<lambda>k. p + int k) ` set ks \<Longrightarrow> fold (\<lambda>k m. m(p + int k := ws ! k)) ks mem i = mem i" for ks
    by (induction ks) auto
  moreover assume "i \<notin> fst ` set (stores_of [a])"
  ultimately show ?thesis using StOut by (force simp: image_image)
qed simp_all

lemma store_hit:
  assumes "i \<in> fst ` set (stores_of [a])" "\<And>p x. (p, x) \<in> set (stores_of [a]) \<Longrightarrow> x = f p"
  shows "store a mem i = f i"
proof (cases a)
  case (StOut p ws)
  have gen: "\<And>mem. set ks \<subseteq> {0..<length ws} \<Longrightarrow> (\<And>k. k \<in> set ks \<Longrightarrow> ws ! k = f (p + int k))
      \<Longrightarrow> i \<in> (\<lambda>k. p + int k) ` set ks \<Longrightarrow> fold (\<lambda>k m. m(p + int k := ws ! k)) ks mem i = f i" for ks
  proof (induction ks rule: rev_induct)
    case Nil
    then show ?case by simp
  next
    case (snoc k ks)
    show ?case
    proof (cases "i = p + int k")
      case True
      then show ?thesis using snoc.prems(2) [of k] by simp
    next
      case False
      then have "i \<in> (\<lambda>k. p + int k) ` set ks" using snoc.prems(3) by auto
      then show ?thesis using snoc.IH [of mem] snoc.prems(1,2) False by simp
    qed
  qed
  have v: "\<And>k. k \<in> set [0..<length ws] \<Longrightarrow> ws ! k = f (p + int k)"
    using assms(2) [of "p + int k" "ws ! k" for k] StOut by force
  show ?thesis
    using gen [of "[0..<length ws]" mem] v assms(1) StOut by (simp add: image_image)
qed (use assms(1) in simp_all)

lemma fold_store_correct:
  assumes "\<And>p x. (p, x) \<in> set (stores_of tr) \<Longrightarrow> x = f p"
  shows "fold store tr mem i = (if i \<in> fst ` set (stores_of tr) then f i else mem i)"
  using assms
proof (induction tr arbitrary: mem rule: rev_induct)
  case Nil
  then show ?case by simp
next
  case (snoc a tr)
  have a: "\<And>p x. (p, x) \<in> set (stores_of [a]) \<Longrightarrow> x = f p" using snoc.prems by (simp add: stores_of_append)
  have tr: "\<And>p x. (p, x) \<in> set (stores_of tr) \<Longrightarrow> x = f p" using snoc.prems by (simp add: stores_of_append)
  show ?case
  proof (cases "i \<in> fst ` set (stores_of [a])")
    case True
    have "store a (fold store tr mem) i = f i"
      by (rule store_hit [where f = f, OF True]) (rule a)
    then show ?thesis using True by (auto simp: stores_of_append)
  next
    case False
    then show ?thesis using store_other [OF False] snoc.IH [OF tr, of mem] by (auto simp: stores_of_append)
  qed
qed

lemma trace_ok_concat:
  assumes "\<And>x. x \<in> set xs \<Longrightarrow> \<exists>tr. h x = Some tr \<and> trace_ok sz outA inA totalLen vecLen f (S x) tr"
  shows "\<exists>tr. map_option concat (those (map h xs)) = Some tr
      \<and> trace_ok sz outA inA totalLen vecLen f (\<Union>x \<in> set xs. S x) tr"
proof -
  have h: "\<And>x. x \<in> set xs \<Longrightarrow> h x = Some (the (h x))"
    and ok: "\<And>x. x \<in> set xs \<Longrightarrow> trace_ok sz outA inA totalLen vecLen f (S x) (the (h x))"
    using assms by force+
  have t: "those (map h xs) = Some (map (\<lambda>x. the (h x)) xs)"
    by (rule those_map_Some) (rule h)
  have "trace_ok sz outA inA totalLen vecLen f (\<Union>x \<in> set xs. S x) (concat (map (\<lambda>x. the (h x)) xs))"
    using ok unfolding trace_ok_def stores_of_concat
    by (auto simp: image_UN)
  then show ?thesis using t by simp
qed

lemma linewise_of_trace_ok:
  assumes "exec_stream (int sz) op src vecs shm
             (launches (run VecBytes BlockSize sz occupy outA inA lineLen nLines alongLines)) = Some tr"
    and "trace_ok (int sz) outA inA (lineLen * nLines) (if alongLines then lineLen else nLines) f S tr"
  shows "\<exists>mem. linewise VecBytes BlockSize sz occupy outA inA lineLen nLines alongLines op src vecs shm out0
           = Some (Inr mem) \<and> (\<forall>i. mem i = (if i \<in> S then f i else out0 i))"
proof -
  have "List.map_filter (check_access (int sz) outA inA (lineLen * nLines)
                      (if alongLines then lineLen else nLines)) tr = []"
    using assms(2) unfolding trace_ok_def by (auto simp: List.map_filter_def filter_empty_conv)
  moreover have st: "\<And>p x. (p, x) \<in> set (stores_of tr) \<Longrightarrow> x = f p"
    using assms(2) unfolding trace_ok_def by auto
  have S: "fst ` set (stores_of tr) = S" using assms(2) unfolding trace_ok_def by simp
  have "\<And>i. fold store tr out0 i = (if i \<in> S then f i else out0 i)"
    using fold_store_correct [of tr f out0, OF st] unfolding S by simp
  ultimately show ?thesis using assms(1) unfolding linewise_def by simp
qed

lemma int_le_div_iff:
  fixes a b c :: int
  assumes "0 < c"
  shows "a \<le> b div c \<longleftrightarrow> a * c \<le> b"
proof
  assume "a \<le> b div c"
  then have "a * c \<le> (b div c) * c" using assms by simp
  also have "\<dots> = b - b mod c" by (simp add: minus_mod_eq_div_mult)
  also have "\<dots> \<le> b" using assms by simp
  finally show "a * c \<le> b" .
next
  assume "a * c \<le> b"
  then have "(a * c) div c \<le> b div c" using assms by (intro zdiv_mono1) simp_all
  then show "a \<le> b div c" using assms by simp
qed

lemma int_div_less_iff:
  fixes a b c :: int
  assumes "0 < c"
  shows "b div c < a \<longleftrightarrow> b < a * c"
  using int_le_div_iff [OF assms, of a b] by linarith

lemma in_chunk_elems:
  assumes "0 < V"
  shows "p \<in> set (chunk_elems V (vectorCols_chunks V pos e))
     \<longleftrightarrow> (\<exists>n::nat. pos + int n * (32 * V) < e \<and> pos + int n * (32 * V) \<le> p \<and> p < pos + int n * (32 * V) + V)"
proof -
  have S: "0 < 32 * V" using assms by simp
  have n: "n < nat ((e - pos - 1) div (32 * V) + 1) \<longleftrightarrow> pos + int n * (32 * V) < e" for n
  proof -
    have "n < nat ((e - pos - 1) div (32 * V) + 1) \<longleftrightarrow> int n \<le> (e - pos - 1) div (32 * V)" by linarith
    also have "\<dots> \<longleftrightarrow> int n * (32 * V) \<le> e - pos - 1"
      by (rule int_le_div_iff [OF S])
    finally show ?thesis by linarith
  qed
  have k: "(\<exists>k \<in> {0..<nat V}. p = c + int k) \<longleftrightarrow> c \<le> p \<and> p < c + V" for c
  proof
    assume "c \<le> p \<and> p < c + V"
    then have "nat (p - c) \<in> {0..<nat V}" "p = c + int (nat (p - c))" by auto
    then show "\<exists>k \<in> {0..<nat V}. p = c + int k" by blast
  qed (use assms in auto)
  have "p \<in> set (chunk_elems V (vectorCols_chunks V pos e))
     \<longleftrightarrow> (\<exists>n \<in> {0..<nat ((e - pos - 1) div (32 * V) + 1)}. \<exists>k \<in> {0..<nat V}. p = pos + int n * (32 * V) + int k)"
    unfolding chunk_elems_def vectorCols_chunks_def WarpSize_def
    apply (simp only: set_concat set_map set_upt image_image)
    apply blast
    done
  also have "\<dots> \<longleftrightarrow> (\<exists>n \<in> {0..<nat ((e - pos - 1) div (32 * V) + 1)}. pos + int n * (32 * V) \<le> p \<and> p < pos + int n * (32 * V) + V)"
    using k by simp
  also have "\<dots> \<longleftrightarrow> (\<exists>n::nat. pos + int n * (32 * V) < e \<and> pos + int n * (32 * V) \<le> p \<and> p < pos + int n * (32 * V) + V)"
    unfolding Bex_def atLeastLessThan_iff n by simp
  finally show ?thesis .
qed

lemma in_vectorCols_chunks:
  assumes "0 < V"
  shows "c \<in> set (vectorCols_chunks V pos e) \<longleftrightarrow> (\<exists>n::nat. c = pos + int n * (32 * V) \<and> c < e)"
proof -
  have S: "0 < 32 * V" using assms by simp
  have n: "n < nat ((e - pos - 1) div (32 * V) + 1) \<longleftrightarrow> pos + int n * (32 * V) < e" for n
  proof -
    have "n < nat ((e - pos - 1) div (32 * V) + 1) \<longleftrightarrow> int n \<le> (e - pos - 1) div (32 * V)" by linarith
    also have "\<dots> \<longleftrightarrow> int n * (32 * V) \<le> e - pos - 1"
      by (rule int_le_div_iff [OF S])
    finally show ?thesis by linarith
  qed
  show ?thesis unfolding vectorCols_chunks_def WarpSize_def
    apply (simp only: set_map set_upt image_iff Bex_def atLeastLessThan_iff n)
    apply auto
    done
qed

lemma vc_access_valid:
  assumes "0 < sz" "0 < V" "0 < rowLen" "vc_access_within V rowLen cs a"
    and cs: "\<And>c. c \<in> set cs \<Longrightarrow> 0 \<le> c \<and> c + V \<le> rowLen * nRows
                \<and> (inA + c * sz) mod (V * sz) = 0 \<and> (outA + c * sz) mod (V * sz) = 0"
  shows "check_access sz outA inA (rowLen * nRows) nRows a = None"
proof (cases a)
  case (LdIn p n)
  then show ?thesis using assms(4) cs [of p] by auto
next
  case (LdVec l j)
  then obtain c where c: "c \<in> set cs" "c div rowLen \<le> j" "j \<le> (c + V - 1) div rowLen"
    using assms(4) by auto
  have "0 \<le> c div rowLen" using cs [OF c(1)] assms(3) by (simp add: pos_imp_zdiv_nonneg_iff)
  moreover have "(c + V - 1) div rowLen < nRows"
    using cs [OF c(1)] by (subst int_div_less_iff [OF assms(3)]) (simp add: mult.commute)
  ultimately show ?thesis using c LdVec by simp
next
  case (StOut p ws)
  then show ?thesis using assms(4) cs [of p] by auto
qed

lemma vectorCols_trace_ok:
  assumes "0 < sz" "0 < rowLen" "0 < V" "0 \<le> pos"
    and cs: "\<And>c. c \<in> set (vectorCols_chunks V pos e) \<Longrightarrow> c + V \<le> rowLen * nRows
                \<and> (inA + c * sz) mod (V * sz) = 0 \<and> (outA + c * sz) mod (V * sz) = 0"
  shows "\<exists>s. vectorCols V op src vecs pos e rowLen (pos sdiv rowLen) (pos smod rowLen) = Some s
      \<and> trace_ok sz outA inA (rowLen * nRows) nRows (cols_result rowLen op src vecs)
           (set (chunk_elems V (vectorCols_chunks V pos e))) (trace s)"
proof -
  let ?s0 = "\<lparr>rowDiv = pos sdiv rowLen, rowMod = pos smod rowLen, update = True, args = [],
              trace = [], applied = []\<rparr> :: 'a vc_state"
  let ?cs = "vectorCols_chunks V pos e"
  have i: "pos sdiv rowLen = pos div rowLen" "pos smod rowLen = pos mod rowLen"
    using sdiv_smod_nonneg [OF assms(4,2)] by simp_all
  have "0 \<le> rowMod ?s0" "rowDiv ?s0 * rowLen + rowMod ?s0 = pos"
    "update ?s0 \<or> args ?s0 = map (\<lambda>v. v (rowDiv ?s0)) vecs"
    using assms(2) by (simp_all add: i)
  from vectorCols_loop_spec [OF assms(2,3) this, of op src e]
  obtain s where s: "vectorCols V op src vecs pos e rowLen (pos sdiv rowLen) (pos smod rowLen) = Some s"
    "loop_post V rowLen op src vecs e pos ?s0 s"
    unfolding vectorCols_def by blast
  from s(2) have st: "stores_of (trace s) = map (\<lambda>p. (p, cols_result rowLen op src vecs p)) (chunk_elems V ?cs)"
    and acc: "list_all (vc_access_within V rowLen ?cs) (trace s)"
    unfolding loop_post_def cols_result_def by auto
  have cs': "\<And>c. c \<in> set ?cs \<Longrightarrow> 0 \<le> c \<and> c + V \<le> rowLen * nRows
                \<and> (inA + c * sz) mod (V * sz) = 0 \<and> (outA + c * sz) mod (V * sz) = 0"
    using cs assms(3,4) by (auto simp: in_vectorCols_chunks)
  have "\<forall>a \<in> set (trace s). check_access sz outA inA (rowLen * nRows) nRows a = None"
    using acc vc_access_valid [OF assms(1,3,2) _ cs'] by (auto simp: list_all_iff)
  moreover have "fst ` set (stores_of (trace s)) = set (chunk_elems V ?cs)"
    unfolding st by (simp add: image_image)
  moreover have "\<forall>(p, x) \<in> set (stores_of (trace s)). x = cols_result rowLen op src vecs p"
    unfolding st by auto
  ultimately show ?thesis using s(1) unfolding trace_ok_def by blast
qed

lemma chunk_elems_one:
  "set (chunk_elems 1 (vectorCols_chunks 1 pos (pos + (if c then 1 else 0)))) = (if c then {pos} else {})"
proof -
  have "p \<in> set (chunk_elems 1 (vectorCols_chunks 1 pos (pos + (if c then 1 else 0))))
        \<longleftrightarrow> p \<in> (if c then {pos} else {})" for p
    unfolding in_chunk_elems [of 1, simplified] by (cases c) auto
  then show ?thesis by blast
qed

lemma ColsTail_thread_ok:
  assumes "0 < sz" "0 < rowLen" "sz dvd inA" "sz dvd outA" "0 \<le> pos" "c \<Longrightarrow> pos < rowLen * nRows"
  shows "\<exists>s. vectorCols 1 op src vecs pos (pos + (if c then 1 else 0)) rowLen (pos sdiv rowLen) (pos smod rowLen) = Some s
      \<and> trace_ok sz outA inA (rowLen * nRows) nRows (cols_result rowLen op src vecs)
           (if c then {pos} else {}) (trace s)"
proof -
  let ?e = "pos + (if c then 1 else 0)"
  have "\<exists>s. vectorCols 1 op src vecs pos ?e rowLen (pos sdiv rowLen) (pos smod rowLen) = Some s
      \<and> trace_ok sz outA inA (rowLen * nRows) nRows (cols_result rowLen op src vecs)
           (set (chunk_elems 1 (vectorCols_chunks 1 pos ?e))) (trace s)"
  proof (rule vectorCols_trace_ok [OF assms(1,2) _ assms(5)])
    show "0 < (1::int)" by simp
    fix x assume "x \<in> set (vectorCols_chunks 1 pos ?e)"
    then show "x + 1 \<le> rowLen * nRows
                \<and> (inA + x * sz) mod (1 * sz) = 0 \<and> (outA + x * sz) mod (1 * sz) = 0"
      using assms(3,4,6) unfolding in_vectorCols_chunks [of 1, simplified]
      by (cases c) (auto simp: mod_eq_0_iff_dvd)
  qed
  then show ?thesis unfolding chunk_elems_one .
qed

lemma ColsTail_block_ok:
  assumes "0 < sz" "0 < rowLen" "sz dvd inA" "sz dvd outA"
    and "0 \<le> off" "off \<le> M" "off \<le> rowLen * nRows" "0 \<le> end'" "rowLen * nRows - end' \<le> M"
    and "b = 0 \<or> b = 1"
  shows "\<exists>tr. exec_block sz op src vecs shm (ColsTail M off end' rowLen (rowLen * nRows)) b = Some tr
      \<and> trace_ok sz outA inA (rowLen * nRows) nRows (cols_result rowLen op src vecs)
           (if b = 0 then {0..<off} else {end'..<rowLen * nRows}) tr"
proof -
  let ?L = "rowLen * nRows"
  let ?h = "\<lambda>t. map_option trace
           (matrixLinewiseVecColsTailKernel op src vecs off end' rowLen ?L b t)"
  let ?S = "\<lambda>t. if b = 0 then (if t < off then {t} else {}) else (if end' + t < ?L then {end' + t} else {})"
  have th: "\<exists>tr. ?h t = Some tr \<and> trace_ok sz outA inA ?L nRows (cols_result rowLen op src vecs) (?S t) tr"
    if "t \<in> set [0..M - 1]" for t
  proof (cases "b = 0")
    case True
    have t: "0 \<le> t" using that by simp
    from ColsTail_thread_ok [OF assms(1-4) t, where c = "t < off" and nRows = nRows and op = op and src = src and vecs = vecs]
    show ?thesis using True assms(7) by (auto simp: matrixLinewiseVecColsTailKernel_def)
  next
    case False
    have t: "0 \<le> end' + t" using that assms(8) by simp
    from ColsTail_thread_ok [OF assms(1-4) t, where c = "end' + t < ?L" and nRows = nRows and op = op and src = src and vecs = vecs]
    show ?thesis using False by (auto simp: matrixLinewiseVecColsTailKernel_def)
  qed
  have U: "(\<Union>t \<in> set [0..M - 1]. ?S t) = (if b = 0 then {0..<off} else {end'..<?L})"
  proof (cases "b = 0")
    case True
    then show ?thesis using assms(5,6) by (auto split: if_splits)
  next
    case False
    have "p \<in> (\<Union>t \<in> {0..M - 1}. if end' + t < ?L then {end' + t} else {}) \<longleftrightarrow> p \<in> {end'..<?L}" for p
    proof
      assume "p \<in> {end'..<?L}"
      then have "p - end' \<in> {0..M - 1}" "end' + (p - end') < ?L" "p = end' + (p - end')"
        using assms(9) by auto
      then show "p \<in> (\<Union>t \<in> {0..M - 1}. if end' + t < ?L then {end' + t} else {})"
        by (intro UN_I [where a = "p - end'"]) simp_all
    qed (auto split: if_splits)
    then show ?thesis using False by auto
  qed
  from trace_ok_concat [of "[0..M - 1]" ?h sz outA inA ?L nRows "cols_result rowLen op src vecs" ?S, OF th]
  show ?thesis unfolding U by simp
qed

lemma ColsTail_launch_ok:
  assumes "0 < sz" "0 < rowLen" "sz dvd inA" "sz dvd outA"
    and "0 \<le> off" "off \<le> M" "off \<le> rowLen * nRows" "0 \<le> end'" "rowLen * nRows - end' \<le> M"
  shows "\<exists>tr. exec_launch sz op src vecs shm (ColsTail M off end' rowLen (rowLen * nRows)) = Some tr
      \<and> trace_ok sz outA inA (rowLen * nRows) nRows (cols_result rowLen op src vecs)
           ({0..<off} \<union> {end'..<rowLen * nRows}) tr"
proof -
  let ?L = "rowLen * nRows"
  let ?S = "\<lambda>b::int. if b = 0 then {0..<off} else {end'..<?L}"
  have b: "\<exists>tr. exec_block sz op src vecs shm (ColsTail M off end' rowLen ?L) b = Some tr
      \<and> trace_ok sz outA inA ?L nRows (cols_result rowLen op src vecs) (?S b) tr"
    if "b \<in> set [0..2 - 1]" for b
  proof -
    have "b = 0 \<or> b = 1" using that by auto
    from ColsTail_block_ok [OF assms this] show ?thesis .
  qed
  have "set [0..2 - 1] = {0, 1::int}" by auto
  then have U: "(\<Union>b \<in> set [0..2 - 1]. ?S b) = {0..<off} \<union> {end'..<?L}" by (simp add: Un_commute)
  from trace_ok_concat [of "[0..2 - 1]" "exec_block sz op src vecs shm (ColsTail M off end' rowLen ?L)"
      sz outA inA ?L nRows "cols_result rowLen op src vecs" ?S, OF b]
  show ?thesis unfolding U exec_launch_def by simp
qed

lemma chunk_index_less:
  fixes V off m A :: int
  assumes "0 < V" "0 \<le> off" "off < V"
  shows "off + V * m < A * V \<longleftrightarrow> m < A"
proof
  assume "off + V * m < A * V"
  then have "V * m < V * A" using assms(2) by (simp add: mult.commute)
  then show "m < A" using assms(1) by (simp add: mult_less_cancel_left_pos)
next
  assume "m < A"
  then have "m + 1 \<le> A" by simp
  then have "V * (m + 1) \<le> V * A" using assms(1) by (intro mult_left_mono) simp_all
  then show "off + V * m < A * V" using assms(3) by (simp add: algebra_simps)
qed

lemma ceil_mult_ge:
  fixes a d :: int
  assumes "0 < d"
  shows "a \<le> (a + d - 1) div d * d"
proof -
  have "(a + d - 1) div d * d = (a + d - 1) - (a + d - 1) mod d" by (simp add: minus_mod_eq_div_mult)
  moreover have "(a + d - 1) mod d < d" using assms by simp
  ultimately show ?thesis by linarith
qed

lemma ColsMain_cover_index:
  fixes E BS gs A m :: int
  assumes "0 < E" "0 < BS" "32 dvd BS" "0 < gs" "A \<le> E * gs * BS" "0 \<le> m" "m < A"
  shows "\<exists>b t n. 0 \<le> b \<and> b < gs \<and> 0 \<le> t \<and> t < BS \<and> 0 \<le> n \<and> n < E
           \<and> m = E * (b * BS + t - t mod 32) + t mod 32 + 32 * n"
proof -
  define w where "w = m div (32 * E)"
  define r where "r = m mod (32 * E)"
  define n where "n = r div 32"
  define lane where "lane = r mod 32"
  define g where "g = 32 * w + lane"
  define b where "b = g div BS"
  define t where "t = g mod BS"
  obtain k where k: "BS = 32 * k" using assms(3) by (auto simp: dvd_def)
  have kpos: "0 < k" using assms(2) k by simp
  have r: "0 \<le> r" "r < 32 * E" using assms(1) by (simp_all add: r_def)
  have m: "m = 32 * E * w + r" by (simp add: w_def r_def)
  have rn: "r = 32 * n + lane" by (simp add: n_def lane_def)
  have lane: "0 \<le> lane" "lane < 32" by (simp_all add: lane_def)
  have n: "0 \<le> n" "n < E"
    using r by (simp_all add: n_def pos_imp_zdiv_nonneg_iff int_div_less_iff mult.commute)
  have w0: "0 \<le> w" using assms(1,6) by (simp add: w_def pos_imp_zdiv_nonneg_iff)
  have "m < (gs * k) * (32 * E)" using assms(5,7) k by (simp add: algebra_simps)
  then have "w < gs * k" unfolding w_def using assms(1) by (subst int_div_less_iff) simp_all
  then have "32 * (w + 1) \<le> 32 * (gs * k)" by simp
  then have gl: "g < gs * BS" using lane k by (simp add: g_def algebra_simps)
  have g0: "0 \<le> g" using w0 lane by (simp add: g_def)
  have b: "0 \<le> b" "b < gs"
    using g0 gl assms(2) by (simp_all add: b_def pos_imp_zdiv_nonneg_iff int_div_less_iff)
  have t: "0 \<le> t" "t < BS" using assms(2) by (simp_all add: t_def)
  have tm: "t mod 32 = lane"
  proof -
    have "t mod 32 = g mod 32" unfolding t_def using assms(3) by (rule mod_mod_cancel)
    also have "\<dots> = lane" using lane by (simp add: g_def)
    finally show ?thesis .
  qed
  have bt: "b * BS + t = g" by (simp add: b_def t_def)
  have "E * (b * BS + t - t mod 32) + t mod 32 + 32 * n = E * (32 * w) + lane + 32 * n"
    unfolding bt tm by (simp add: g_def)
  also have "\<dots> = m" using m rn by (simp add: algebra_simps)
  finally show ?thesis using b t n by metis
qed

lemma ColsMain_thread_ok:
  assumes "0 < sz" "0 < rowLen" "0 < V" "0 < E" "0 \<le> off" "off < V" "0 \<le> b" "0 \<le> t" "0 \<le> BS"
    and "off + A * V \<le> rowLen * nRows"
    and "(inA + off * sz) mod (V * sz) = 0" "(outA + off * sz) mod (V * sz) = 0"
    and rng: "off + V * ColsMain_chunk E BS b t E < 2147483648"
  shows "\<exists>s. matrixLinewiseVecColsMainKernel V BS op src vecs off rowLen (A * V) (E * V) b t = Some s
      \<and> trace_ok sz outA inA (rowLen * nRows) nRows (cols_result rowLen op src vecs)
          {p. \<exists>n. 0 \<le> n \<and> n < E \<and> ColsMain_chunk E BS b t n < A
                \<and> off + V * ColsMain_chunk E BS b t n \<le> p
                \<and> p < off + V * ColsMain_chunk E BS b t n + V} (trace s)"
proof -
  define M0 where "M0 = E * (b * BS + t - t mod 32) + t mod 32"
  define pos where "pos = off + V * M0"
  define e where "e = min (pos + E * V * 32) (A * V)"
  have tl: "0 \<le> t mod 32" "t mod 32 \<le> t" using assms(8) by (simp_all add: zmod_le_nonneg_dividend)
  have "0 \<le> b * BS" using assms(7,9) by simp
  then have "0 \<le> b * BS + t - t mod 32" using tl by linarith
  then have "0 \<le> E * (b * BS + t - t mod 32)" using assms(4) by simp
  then have M0: "0 \<le> M0" using tl by (simp add: M0_def)
  have pos0: "0 \<le> pos" using M0 assms(3,5) by (simp add: pos_def)
  have ch: "ColsMain_chunk E BS b t n = M0 + 32 * n" for n
    by (simp add: ColsMain_chunk_def M0_def)
  have hi: "pos + E * V * 32 < 2147483648"
    using rng by (simp add: ch pos_def algebra_simps)
  have "0 \<le> E * V * 32" using assms(3,4) by simp
  then have i1: "idx pos = pos" and i2: "idx (pos + E * V * 32) = pos + E * V * 32"
    using pos0 hi by (simp_all add: idx_id)
  have p: "off + E * V * (b * BS + t - t mod 32) + t mod 32 * V = pos"
    by (simp add: pos_def M0_def algebra_simps)
  have k: "matrixLinewiseVecColsMainKernel V BS op src vecs off rowLen (A * V) (E * V) b t
         = vectorCols V op src vecs pos e rowLen (pos sdiv rowLen) (pos smod rowLen)"
    unfolding matrixLinewiseVecColsMainKernel_def Pow2_mod_def WarpSize_def Let_def p i1 i2 e_def ..
  have cn: "pos + int n * (32 * V) = off + V * (M0 + 32 * int n)" for n
    by (simp add: pos_def algebra_simps)
  have lt: "pos + int n * (32 * V) < e \<longleftrightarrow> int n < E \<and> M0 + 32 * int n < A" for n
  proof -
    have "pos + int n * (32 * V) < pos + E * V * 32 \<longleftrightarrow> (32 * V) * int n < (32 * V) * E"
      by (simp add: algebra_simps)
    also have "\<dots> \<longleftrightarrow> int n < E" using assms(3) by (subst mult_less_cancel_left_pos) simp_all
    finally have a: "pos + int n * (32 * V) < pos + E * V * 32 \<longleftrightarrow> int n < E" .
    have b: "pos + int n * (32 * V) < A * V \<longleftrightarrow> M0 + 32 * int n < A"
      unfolding cn by (rule chunk_index_less [OF assms(3,5,6)])
    show ?thesis unfolding e_def min_less_iff_conj a b ..
  qed
  have "\<exists>s. vectorCols V op src vecs pos e rowLen (pos sdiv rowLen) (pos smod rowLen) = Some s
      \<and> trace_ok sz outA inA (rowLen * nRows) nRows (cols_result rowLen op src vecs)
           (set (chunk_elems V (vectorCols_chunks V pos e))) (trace s)"
  proof (rule vectorCols_trace_ok [OF assms(1,2,3) pos0])
    fix c assume "c \<in> set (vectorCols_chunks V pos e)"
    then obtain n :: nat where n: "c = pos + int n * (32 * V)" "c < e"
      unfolding in_vectorCols_chunks [OF assms(3)] by blast
    define m where "m = M0 + 32 * int n"
    have c: "c = off + V * m" using n(1) cn by (simp add: m_def)
    have "m < A" using n lt by (simp add: m_def)
    then have "m + 1 \<le> A" by simp
    then have "V * (m + 1) \<le> V * A" using assms(3) by (intro mult_left_mono) simp_all
    then have 1: "c + V \<le> rowLen * nRows" using assms(10) by (simp add: c algebra_simps)
    have al: "(a + c * sz) mod (V * sz) = (a + off * sz) mod (V * sz)" for a
    proof -
      have "a + c * sz = (a + off * sz) + m * (V * sz)" by (simp add: c algebra_simps)
      then show ?thesis by (simp only: mod_mult_self1)
    qed
    have 2: "(inA + c * sz) mod (V * sz) = 0" unfolding al by (rule assms(11))
    have 3: "(outA + c * sz) mod (V * sz) = 0" unfolding al by (rule assms(12))
    show "c + V \<le> rowLen * nRows \<and> (inA + c * sz) mod (V * sz) = 0 \<and> (outA + c * sz) mod (V * sz) = 0"
      using 1 2 3 by simp
  qed
  moreover have "set (chunk_elems V (vectorCols_chunks V pos e))
      = {p. \<exists>n. 0 \<le> n \<and> n < E \<and> ColsMain_chunk E BS b t n < A
                \<and> off + V * ColsMain_chunk E BS b t n \<le> p
                \<and> p < off + V * ColsMain_chunk E BS b t n + V}" (is "?l = ?r")
  proof (intro set_eqI iffI)
    fix p assume "p \<in> ?l"
    then obtain n :: nat where n: "pos + int n * (32 * V) < e" "pos + int n * (32 * V) \<le> p"
      "p < pos + int n * (32 * V) + V"
      unfolding in_chunk_elems [OF assms(3)] by blast
    have "int n < E \<and> M0 + 32 * int n < A" using n(1) lt by simp
    then have "0 \<le> int n \<and> int n < E \<and> ColsMain_chunk E BS b t (int n) < A
                \<and> off + V * ColsMain_chunk E BS b t (int n) \<le> p
                \<and> p < off + V * ColsMain_chunk E BS b t (int n) + V"
      using n(2,3) unfolding cn ch by simp
    then show "p \<in> ?r" by blast
  next
    fix p assume "p \<in> ?r"
    then obtain n where n: "0 \<le> n" "n < E" "ColsMain_chunk E BS b t n < A"
        "off + V * ColsMain_chunk E BS b t n \<le> p" "p < off + V * ColsMain_chunk E BS b t n + V"
      by blast
    have nn: "int (nat n) = n" using n(1) by simp
    have "pos + int (nat n) * (32 * V) < e"
      using lt [of "nat n"] n(2,3) unfolding nn ch by simp
    moreover have "pos + int (nat n) * (32 * V) \<le> p \<and> p < pos + int (nat n) * (32 * V) + V"
      using cn [of "nat n"] n(4,5) unfolding nn ch by simp
    ultimately have "pos + int (nat n) * (32 * V) < e \<and> pos + int (nat n) * (32 * V) \<le> p
        \<and> p < pos + int (nat n) * (32 * V) + V" by simp
    then show "p \<in> ?l" unfolding in_chunk_elems [OF assms(3)] by blast
  qed
  ultimately show ?thesis unfolding k by simp
qed

lemma ColsMain_chunk_nonneg:
  assumes "0 < E" "0 \<le> b" "0 \<le> t" "0 \<le> BS" "0 \<le> n"
  shows "0 \<le> ColsMain_chunk E BS b t n"
proof -
  have tl: "0 \<le> t mod 32" "t mod 32 \<le> t" using assms(3) by (simp_all add: zmod_le_nonneg_dividend)
  have "0 \<le> b * BS" using assms(2,4) by simp
  then have "0 \<le> b * BS + t - t mod 32" using tl by linarith
  then have "0 \<le> E * (b * BS + t - t mod 32)" using assms(1) by simp
  then show ?thesis using tl assms(5) by (simp add: ColsMain_chunk_def)
qed

lemma ColsMain_launch_ok:
  assumes "0 < sz" "0 < rowLen" "0 < V" "W sdiv sz = V" "0 \<le> off" "off < V" "0 < A"
    and "0 < BS" "32 dvd BS" "0 < gs"
    and "off + A * V \<le> rowLen * nRows"
    and "(inA + off * sz) mod (V * sz) = 0" "(outA + off * sz) mod (V * sz) = 0"
    and E: "E = (A * V + gs * V * BS - 1) div (gs * V * BS)"
    and rng: "A * V + gs * V * BS + 32 * V \<le> 2147483648"
  shows "\<exists>tr. exec_launch sz op src vecs shm (ColsMain W BS gs off rowLen (A * V) (E * V)) = Some tr
      \<and> trace_ok sz outA inA (rowLen * nRows) nRows (cols_result rowLen op src vecs)
           {off..<off + A * V} tr"
proof -
  let ?L = "rowLen * nRows"
  let ?f = "cols_result rowLen op src vecs"
  let ?T = "\<lambda>b t. {p. \<exists>n. 0 \<le> n \<and> n < E \<and> ColsMain_chunk E BS b t n < A
                \<and> off + V * ColsMain_chunk E BS b t n \<le> p
                \<and> p < off + V * ColsMain_chunk E BS b t n + V}"
  define d where "d = gs * V * BS"
  have d: "0 < d" using assms(3,8,10) by (simp add: d_def)
  have AV: "0 < A * V" using assms(3,7) by simp
  have Ed: "E = (A * V + d - 1) div d" by (simp add: E d_def)
  have "d \<le> A * V + d - 1" using AV by simp
  then have "d div d \<le> (A * V + d - 1) div d" using d by (intro zdiv_mono1) simp_all
  then have E0: "0 < E" using d by (simp add: Ed)
  have "A * V \<le> E * d" unfolding Ed by (rule ceil_mult_ge [OF d])
  then have "A * V \<le> (E * gs * BS) * V" by (simp add: d_def algebra_simps)
  then have cov: "A \<le> E * gs * BS" using assms(3) by (simp add: mult_le_cancel_right)
  have blk: "\<exists>tr. exec_block sz op src vecs shm (ColsMain W BS gs off rowLen (A * V) (E * V)) b = Some tr
      \<and> trace_ok sz outA inA ?L nRows ?f (\<Union>t \<in> set [0..BS - 1]. ?T b t) tr"
    if "b \<in> set [0..gs - 1]" for b
  proof -
    have b0: "0 \<le> b" using that by simp
    have th: "\<exists>tr. map_option trace
           (matrixLinewiseVecColsMainKernel V BS op src vecs off rowLen (A * V) (E * V) b t) = Some tr
        \<and> trace_ok sz outA inA ?L nRows ?f (?T b t) tr" if "t \<in> set [0..BS - 1]" for t
    proof -
      have t0: "0 \<le> t" "t < BS" using that by simp_all
      have BS0: "0 \<le> BS" using assms(8) by simp
      obtain k where k: "BS = 32 * k" using assms(9) by (auto simp: dvd_def)
      have "t div 32 < k" using t0(2) k by (subst int_div_less_iff) (simp_all add: mult.commute)
      then have "32 * (t div 32 + 1) \<le> 32 * k" by simp
      moreover have "t - t mod 32 = 32 * (t div 32)" by (simp add: minus_mod_eq_mult_div)
      ultimately have tw: "t - t mod 32 \<le> BS - 32" using k by simp
      have "b + 1 \<le> gs" using \<open>b \<in> set [0..gs - 1]\<close> by simp
      then have "(b + 1) * BS \<le> gs * BS" using assms(8) by (intro mult_right_mono) simp_all
      then have "b * BS + t - t mod 32 \<le> gs * BS - 32" using tw by (simp add: algebra_simps)
      then have "E * (b * BS + t - t mod 32) \<le> E * (gs * BS - 32)"
        using E0 by (intro mult_left_mono) simp_all
      moreover have "t mod 32 < 32" by simp
      ultimately have "ColsMain_chunk E BS b t E \<le> E * (gs * BS) + 31"
        by (simp add: ColsMain_chunk_def algebra_simps)
      then have "V * ColsMain_chunk E BS b t E \<le> V * (E * (gs * BS) + 31)"
        using assms(3) by (intro mult_left_mono) simp_all
      also have "\<dots> = E * d + 31 * V" by (simp add: d_def algebra_simps)
      finally have "off + V * ColsMain_chunk E BS b t E < E * d + 32 * V" using assms(6) by simp
      moreover have "E * d \<le> A * V + d - 1"
      proof -
        have "(A * V + d - 1) div d * d = (A * V + d - 1) - (A * V + d - 1) mod d"
          by (simp add: minus_mod_eq_div_mult)
        moreover have "0 \<le> (A * V + d - 1) mod d" using d by simp
        ultimately show ?thesis unfolding Ed by linarith
      qed
      ultimately have r: "off + V * ColsMain_chunk E BS b t E < 2147483648"
        using rng by (simp add: d_def)
      from ColsMain_thread_ok [OF assms(1,2,3) E0 assms(5,6) b0 t0(1) BS0 assms(11,12,13) r,
          where op = op and src = src and vecs = vecs]
      show ?thesis by auto
    qed
    from trace_ok_concat [of "[0..BS - 1]" _ sz outA inA ?L nRows ?f "?T b", OF th]
    show ?thesis unfolding exec_block.simps assms(4) .
  qed
  have U: "(\<Union>b \<in> set [0..gs - 1]. \<Union>t \<in> set [0..BS - 1]. ?T b t) = {off..<off + A * V}" (is "?l = ?r")
  proof (intro set_eqI iffI)
    fix p assume "p \<in> ?l"
    then obtain b t n where btn: "0 \<le> b" "0 \<le> t" "0 \<le> n" "ColsMain_chunk E BS b t n < A"
        "off + V * ColsMain_chunk E BS b t n \<le> p" "p < off + V * ColsMain_chunk E BS b t n + V"
      by auto
    define m where "m = ColsMain_chunk E BS b t n"
    have m0: "0 \<le> m" unfolding m_def using E0 btn(1,2) _ btn(3) by (rule ColsMain_chunk_nonneg) (use assms(8) in simp)
    have "0 \<le> V * m" using m0 assms(3) by simp
    then have 1: "off \<le> p" using btn(5) by (simp add: m_def)
    have "m + 1 \<le> A" using btn(4) by (simp add: m_def)
    then have "V * (m + 1) \<le> V * A" using assms(3) by (intro mult_left_mono) simp_all
    then have 2: "p < off + A * V" using btn(6) by (simp add: m_def algebra_simps)
    show "p \<in> ?r" using 1 2 by simp
  next
    fix p assume "p \<in> ?r"
    then have p: "off \<le> p" "p < off + A * V" by simp_all
    define m where "m = (p - off) div V"
    have m0: "0 \<le> m" using p(1) assms(3) by (simp add: m_def pos_imp_zdiv_nonneg_iff)
    have mA: "m < A" unfolding m_def using p(2) by (subst int_div_less_iff [OF assms(3)]) simp
    have "V * m = (p - off) - (p - off) mod V" by (simp add: m_def minus_mod_eq_mult_div)
    moreover have "0 \<le> (p - off) mod V" "(p - off) mod V < V" using assms(3) by simp_all
    ultimately have pm: "off + V * m \<le> p" "p < off + V * m + V" by linarith+
    from ColsMain_cover_index [OF E0 assms(8,9,10) cov m0 mA]
    obtain b t n where btn: "0 \<le> b" "b < gs" "0 \<le> t" "t < BS" "0 \<le> n" "n < E"
        "m = E * (b * BS + t - t mod 32) + t mod 32 + 32 * n" by blast
    have c: "ColsMain_chunk E BS b t n = m" by (simp add: ColsMain_chunk_def btn(7))
    have "p \<in> ?T b t" using btn(5,6) mA pm unfolding c [symmetric] by blast
    moreover have "b \<in> set [0..gs - 1]" "t \<in> set [0..BS - 1]" using btn(1-4) by simp_all
    ultimately show "p \<in> ?l" by blast
  qed
  from trace_ok_concat [of "[0..gs - 1]" _ sz outA inA ?L nRows ?f "\<lambda>b. \<Union>t \<in> set [0..BS - 1]. ?T b t", OF blk]
  show ?thesis unfolding U exec_launch_def gridDim_of.simps .
qed

lemma exec_stream_Nil:
  "exec_stream sz op src vecs shm [] = Some []"
  "trace_ok sz outA inA totalLen vecLen f {} []"
  by (simp_all add: exec_stream_def trace_ok_def)

lemma exec_stream_Cons:
  assumes "\<exists>tr. exec_launch sz op src vecs shm l = Some tr \<and> trace_ok sz outA inA totalLen vecLen f S1 tr"
    and "\<exists>tr. exec_stream sz op src vecs shm ls = Some tr \<and> trace_ok sz outA inA totalLen vecLen f S2 tr"
  shows "\<exists>tr. exec_stream sz op src vecs shm (l # ls) = Some tr
      \<and> trace_ok sz outA inA totalLen vecLen f (S1 \<union> S2) tr"
proof -
  from assms obtain tr1 tr2 where 1: "exec_launch sz op src vecs shm l = Some tr1"
      "trace_ok sz outA inA totalLen vecLen f S1 tr1"
    and 2: "exec_stream sz op src vecs shm ls = Some tr2" "trace_ok sz outA inA totalLen vecLen f S2 tr2"
    by blast
  have "exec_stream sz op src vecs shm (l # ls) = Some (tr1 @ tr2)"
    using 1(1) 2(1) by (auto simp: exec_stream_def split: option.splits)
  moreover have "trace_ok sz outA inA totalLen vecLen f (S1 \<union> S2) (tr1 @ tr2)"
    using 1(2) 2(2) unfolding trace_ok_def by (auto simp: stores_of_append image_Un)
  ultimately show ?thesis by blast
qed

lemma alignment_facts:
  fixes W V sz inA outA L :: int
  assumes "0 < sz" "0 < V" "W = V * sz" "sz dvd inA" "inA mod W = outA mod W"
    and good: "roundUp W inA \<le> inA + L * sz"
  defines "off \<equiv> alignedOff_of W sz inA" and "end' \<equiv> alignedEnd_of W sz inA L"
  shows "0 \<le> off" "off < V" "end' \<le> L" "L - end' < V"
    "(inA + off * sz) mod (V * sz) = 0" "(outA + off * sz) mod (V * sz) = 0"
    "\<exists>A. 0 \<le> A \<and> end' = off + A * V"
proof -
  have W: "0 < W" using assms(1,2,3) by simp
  have szW: "sz dvd W" using assms(3) by simp
  define u where "u = roundUp W inA"
  define d where "d = roundDown W (inA + L * sz)"
  have uW: "W dvd u" by (simp add: u_def roundUp_def)
  have dW: "W dvd d" by (simp add: d_def roundDown_def)
  have szu: "sz dvd u" using szW uW by (rule dvd_trans)
  have "sz dvd u - inA" by (rule dvd_diff [OF szu assms(4)])
  then have offsz: "off * sz = u - inA"
    by (simp add: off_def alignedOff_of_def ptr_diff_def u_def)
  have szd: "sz dvd d" using szW dW by (rule dvd_trans)
  have "sz dvd d - inA" by (rule dvd_diff [OF szd assms(4)])
  then have endsz: "end' * sz = d - inA"
    by (simp add: end'_def alignedEnd_of_def ptr_diff_def d_def)
  have ub: "inA \<le> u" "u < inA + W" using roundUp_bounds [OF W, of inA] by (simp_all add: u_def)
  have db: "d \<le> inA + L * sz" "inA + L * sz < d + W"
    using roundDown_bounds [OF W, of "inA + L * sz"] by (simp_all add: d_def)
  have "0 \<le> off * sz" using ub offsz by simp
  then show off0: "0 \<le> off" using assms(1) by (simp add: zero_le_mult_iff)
  have "off * sz < V * sz" using ub offsz assms(3) by simp
  then show "off < V" using assms(1) by (simp add: mult_less_cancel_right)
  have "end' * sz \<le> L * sz" using db endsz by simp
  then show "end' \<le> L" using assms(1) by (simp add: mult_le_cancel_right)
  have "(L - end') * sz < V * sz" using db endsz assms(3) by (simp add: algebra_simps)
  then show "L - end' < V" using assms(1) by (simp add: mult_less_cancel_right)
  have i: "inA + off * sz = u" using offsz by simp
  show "(inA + off * sz) mod (V * sz) = 0" unfolding i using uW assms(3) by simp
  have "(outA + off * sz) mod W = (outA mod W + off * sz) mod W" by (simp add: mod_simps)
  also have "\<dots> = (inA mod W + off * sz) mod W" using assms(5) by simp
  also have "\<dots> = u mod W" unfolding i [symmetric] by (simp add: mod_simps)
  also have "\<dots> = 0" using uW by simp
  finally show "(outA + off * sz) mod (V * sz) = 0" using assms(3) by simp
  \<comment> \<open>the aligned part is a whole number of chunks\<close>
  have "u \<le> d"
  proof -
    obtain k where k: "u = W * k" using uW by (auto simp: dvd_def)
    have "k * W \<le> inA + L * sz" using good k by (simp add: u_def mult.commute)
    then have "k \<le> (inA + L * sz) div W" by (simp add: int_le_div_iff [OF W])
    then have "k * W \<le> ((inA + L * sz) div W) * W" using W by simp
    then show ?thesis using k by (simp add: d_def roundDown_def mult.commute)
  qed
  moreover from dvd_diff [OF dW uW] obtain A where A: "d - u = W * A" unfolding dvd_def by blast
  ultimately have "0 \<le> W * A" by simp
  then have A0: "0 \<le> A" using W by (simp add: zero_le_mult_iff)
  have "(end' - off) * sz = (A * V) * sz" using A offsz endsz assms(3) by (simp add: algebra_simps)
  then have "end' - off = A * V" using assms(1) by simp
  then show "\<exists>A. 0 \<le> A \<and> end' = off + A * V" using A0 by (intro exI [of _ A]) simp
qed

lemma ColsMain_gridSize_pos:
  assumes "0 < a" "0 < e" "a + e \<le> 2 ^ 32" "occupy \<noteq> 0"
  shows "0 < uint (min (ceildiv_u (word_of_int a) (word_of_int e)) occupy)"
proof -
  let ?a = "word_of_int a :: 32 word" and ?e = "word_of_int e :: 32 word"
  have a: "unat ?a = nat a" using assms(1,2,3) by (intro unat_word_of_int_32) simp_all
  have e: "unat ?e = nat e" using assms(1,2,3) by (intro unat_word_of_int_32) simp_all
  have 1: "1 \<le> unat ?e" using assms(2) by (simp add: e)
  have 2: "unat ?a + unat ?e \<le> 2 ^ 32" unfolding a e using assms(1,2,3)
    by (simp add: nat_add_distrib [symmetric] nat_le_iff)
  have "unat ?a \<le> unat (ceildiv_u ?a ?e * ?e)" by (rule ceildiv_u_mult(2) [OF 1 2])
  moreover have "0 < unat ?a" using assms(1) by (simp add: a)
  ultimately have "ceildiv_u ?a ?e \<noteq> 0" by auto
  then have "min (ceildiv_u ?a ?e) occupy \<noteq> 0" using assms(4) by (simp add: min_def)
  then have "uint (min (ceildiv_u ?a ?e) occupy) \<noteq> 0" by (simp only: uint_0_iff not_False_eq_True)
  moreover have "0 \<le> uint (min (ceildiv_u ?a ?e) occupy)" by simp
  ultimately show ?thesis by linarith
qed

lemma matrixLinewiseVecCols_ok:
  assumes "0 < sz" "0 < V" "W = V * sz" "sz dvd inA" "sz dvd outA" "inA mod W = outA mod W"
    and "0 < rowLen" "0 < BS" "32 dvd BS" "occupy \<noteq> 0"
    and small: "rowLen * nRows + (uint occupy * BS + 32) * V \<le> 2147483648"
    and good: "roundUp W inA \<le> inA + rowLen * nRows * sz"
  shows "\<exists>tr. exec_stream sz op src vecs shm (matrixLinewiseVecCols W BS sz occupy inA rowLen nRows) = Some tr
      \<and> trace_ok sz outA inA (rowLen * nRows) nRows (cols_result rowLen op src vecs)
           {0..<rowLen * nRows} tr"
proof -
  let ?L = "rowLen * nRows"
  let ?f = "cols_result rowLen op src vecs"
  define off where "off = alignedOff_of W sz inA"
  define end' where "end' = alignedEnd_of W sz inA ?L"
  note af = alignment_facts [OF assms(1,2,3,4,6) good, folded off_def end'_def]
  from af(7) obtain A where A: "0 \<le> A" "end' = off + A * V" by blast
  have len: "end' - off = A * V" using A(2) by simp
  have WV: "W sdiv sz = V"
    using sdiv_smod_nonneg(1) [of W sz] assms(1,2,3) by simp
  have M: "V \<le> MaxOffset_of W"
  proof -
    have "V * 1 \<le> V * sz" using assms(1,2) by (intro mult_left_mono) simp_all
    then show ?thesis using assms(3) by (simp add: MaxOffset_of_def)
  qed
  define main where "main = (if 0 < A * V
      then [ColsMain W BS (uint (min (ceildiv_u (word_of_int (A * V)) (word_of_int (BS * V))) occupy)) off rowLen (A * V)
              (idx (ceildiv (A * V)
                 (idx (uint (min (ceildiv_u (word_of_int (A * V)) (word_of_int (BS * V))) occupy) * V * BS)) * V))]
      else [])"
  define tail where "tail = (if A * V < ?L then [ColsTail (MaxOffset_of W) off end' rowLen ?L] else [])"
  have ls: "matrixLinewiseVecCols W BS sz occupy inA rowLen nRows = main @ tail"
    unfolding matrixLinewiseVecCols_def Let_def totalLen_of_def WV main_def tail_def
      off_def [symmetric] end'_def [symmetric] len by simp
  have nil: "\<exists>tr. exec_stream sz op src vecs shm [] = Some tr \<and> trace_ok sz outA inA ?L nRows ?f {} tr"
    by (simp add: exec_stream_Nil)
  have t: "\<exists>tr. exec_stream sz op src vecs shm tail = Some tr
      \<and> trace_ok sz outA inA ?L nRows ?f (if A * V < ?L then {0..<off} \<union> {end'..<?L} else {}) tr"
  proof (cases "A * V < ?L")
    case True
    have 1: "off \<le> MaxOffset_of W" using af(2) M by simp
    have "0 \<le> A * V" using A(1) assms(2) by simp
    then have 2: "off \<le> ?L" "0 \<le> end'" using A(2) af(1,3) by simp_all
    have 3: "?L - end' \<le> MaxOffset_of W" using af(4) M by simp
    from ColsTail_launch_ok [OF assms(1,7,4,5) af(1) 1 2 3, where op = op and src = src and vecs = vecs and shm = shm]
    have "\<exists>tr. exec_launch sz op src vecs shm (ColsTail (MaxOffset_of W) off end' rowLen ?L) = Some tr
      \<and> trace_ok sz outA inA ?L nRows ?f ({0..<off} \<union> {end'..<?L}) tr" .
    from exec_stream_Cons [OF this, where ls = "[]" and ?S2.0 = "{}"] nil
    show ?thesis using True by (simp add: tail_def)
  next
    case False
    then show ?thesis using nil by (simp add: tail_def)
  qed
  have m: "\<exists>tr. exec_stream sz op src vecs shm (main @ tail) = Some tr
      \<and> trace_ok sz outA inA ?L nRows ?f
           ((if 0 < A * V then {off..<off + A * V} else {})
            \<union> (if A * V < ?L then {0..<off} \<union> {end'..<?L} else {})) tr"
  proof (cases "0 < A * V")
    case True
    define gs where "gs = uint (min (ceildiv_u (word_of_int (A * V)) (word_of_int (BS * V))) occupy)"
    have A0: "0 < A" using True assms(2) A(1) by (simp add: zero_less_mult_iff)
    have BV: "0 < BS * V" using assms(2,8) by simp
    have AL: "A * V \<le> ?L" using af(1,3) A(2) by simp
    have occ: "1 \<le> uint occupy"
    proof -
      have "uint occupy \<noteq> 0" using assms(10) by (simp only: uint_0_iff not_False_eq_True)
      moreover have "0 \<le> uint occupy" by simp
      ultimately show ?thesis by linarith
    qed
    have "1 * (BS * V) \<le> uint occupy * (BS * V)" using occ BV by (intro mult_right_mono) simp_all
    then have bo: "BS * V \<le> uint occupy * BS * V" by (simp add: algebra_simps)
    have "A * V + BS * V \<le> 2 ^ 32" using small AL bo assms(2) by (simp add: algebra_simps)
    from ColsMain_gridSize_pos [OF True BV this assms(10)]
    have gs: "0 < gs" unfolding gs_def .
    have "min (ceildiv_u (word_of_int (A * V)) (word_of_int (BS * V))) occupy \<le> occupy" by simp
    then have "gs \<le> uint occupy" unfolding gs_def by (simp only: word_le_def)
    then have "gs * (V * BS) \<le> uint occupy * (V * BS)"
      using assms(2,8) by (intro mult_right_mono) simp_all
    then have rng: "A * V + gs * V * BS + 32 * V \<le> 2147483648"
      using small AL by (simp add: algebra_simps)
    define d where "d = gs * V * BS"
    define E where "E = (A * V + d - 1) div d"
    have d: "0 < d" using gs assms(2,8) by (simp add: d_def)
    have V32: "0 < 32 * V" using assms(2) by simp
    have dr: "d < 2147483648" using rng True V32 unfolding d_def by linarith
    have id: "idx d = d" using d dr by (simp add: idx_id)
    have sr: "0 \<le> A * V + d - 1" "A * V + d - 1 < 2147483648"
      using rng True V32 d unfolding d_def by linarith+
    have cd: "ceildiv (A * V) d = E"
      unfolding ceildiv_def E_def using sr d by (simp add: idx_id sdiv_smod_nonneg(1))
    have "0 < gs * BS" using gs assms(8) by simp
    then have "1 \<le> gs * BS" by linarith
    then have "V * 1 \<le> V * (gs * BS)" using assms(2) by (intro mult_left_mono) simp_all
    then have Vd: "V \<le> d" by (simp add: d_def algebra_simps)
    have E0: "0 \<le> E" unfolding E_def using sr(1) d by (simp add: pos_imp_zdiv_nonneg_iff)
    have Ed: "E * d \<le> A * V + d - 1"
    proof -
      have "(A * V + d - 1) div d * d = (A * V + d - 1) - (A * V + d - 1) mod d"
        by (simp add: minus_mod_eq_div_mult)
      moreover have "0 \<le> (A * V + d - 1) mod d" using d by simp
      ultimately show ?thesis unfolding E_def by linarith
    qed
    have "E * V \<le> E * d" using E0 Vd by (intro mult_left_mono) simp_all
    then have "E * V < 2147483648" using Ed sr(2) by linarith
    moreover have "0 \<le> E * V" using E0 assms(2) by simp
    ultimately have ept: "idx (ceildiv (A * V) (idx (gs * V * BS)) * V) = E * V"
      unfolding d_def [symmetric] id cd by (simp add: idx_id)
    have e: "off + A * V \<le> ?L" using af(3) A(2) by simp
    have Eq: "E = (A * V + gs * V * BS - 1) div (gs * V * BS)" by (simp add: E_def d_def)
    from ColsMain_launch_ok [OF assms(1,7,2) WV af(1,2) A0 assms(8,9) gs e af(5,6) Eq rng,
        where op = op and src = src and vecs = vecs and shm = shm]
    have "\<exists>tr. exec_launch sz op src vecs shm
             (ColsMain W BS gs off rowLen (A * V) (E * V)) = Some tr
      \<and> trace_ok sz outA inA ?L nRows ?f {off..<off + A * V} tr" .
    from exec_stream_Cons [OF this t]
    show ?thesis using True unfolding main_def gs_def [symmetric] ept by simp
  next
    case False
    then show ?thesis using t by (simp add: main_def)
  qed
  have U: "(if 0 < A * V then {off..<off + A * V} else {})
            \<union> (if A * V < ?L then {0..<off} \<union> {end'..<?L} else {}) = {0..<?L}"
  proof -
    have AV: "0 \<le> A * V" using A(1) assms(2) by simp
    show ?thesis using af(1,3) A(2) AV by (auto split: if_splits)
  qed
  show ?thesis using m unfolding ls U .
qed

lemma run_dispatch:
  assumes "0 < sz"
  shows "\<exists>j \<le> k. width (run (sz * 2 ^ k) BS sz occupy outA inA lineLen nLines alongLines) = sz * 2 ^ j
      \<and> launches (run (sz * 2 ^ k) BS sz occupy outA inA lineLen nLines alongLines)
          = (if alongLines
             then matrixLinewiseVecRows (int (sz * 2 ^ j)) BS (int sz) occupy inA lineLen nLines
             else matrixLinewiseVecCols (int (sz * 2 ^ j)) BS (int sz) occupy inA lineLen nLines)
      \<and> (j = 0 \<or> areSameAlignOffsets (int (sz * 2 ^ j)) inA outA)"
proof (induction k)
  case 0
  show ?case by (rule exI [of _ 0]) (simp add: run.simps)
next
  case (Suc k)
  show ?case
  proof (cases "areSameAlignOffsets (int (sz * 2 ^ Suc k)) inA outA")
    case True
    show ?thesis by (rule exI [of _ "Suc k"]) (use True in \<open>simp add: run.simps\<close>)
  next
    case False
    have "(1::nat) \<le> 2 ^ k" by simp
    then have "Suc 0 < 2 * 2 ^ k" by linarith
    then have gt: "sz * 2 ^ Suc k > sz" using assms by simp
    have h: "max (sz * 2 ^ Suc k div 2) sz = sz * 2 ^ k" by simp
    have r: "run (sz * 2 ^ Suc k) BS sz occupy outA inA lineLen nLines alongLines
           = run (sz * 2 ^ k) BS sz occupy outA inA lineLen nLines alongLines"
      by (subst run.simps) (simp only: gt False h simp_thms if_True)
    from Suc obtain j where "j \<le> k" "width (run (sz * 2 ^ k) BS sz occupy outA inA lineLen nLines alongLines) = sz * 2 ^ j
      \<and> launches (run (sz * 2 ^ k) BS sz occupy outA inA lineLen nLines alongLines)
          = (if alongLines
             then matrixLinewiseVecRows (int (sz * 2 ^ j)) BS (int sz) occupy inA lineLen nLines
             else matrixLinewiseVecCols (int (sz * 2 ^ j)) BS (int sz) occupy inA lineLen nLines)
      \<and> (j = 0 \<or> areSameAlignOffsets (int (sz * 2 ^ j)) inA outA)" by blast
    then show ?thesis unfolding r by (intro exI [of _ j]) simp
  qed
qed

text \<open>
  The blocked strategy is correct when nothing overflows. Let \<open>VecBytes\<close> be
  \<open>sizeof(Type)\<close> times a power of two, \<open>in\<close> and \<open>out\<close> aligned to \<open>sizeof(Type)\<close>,
  \<open>lineLen \<ge> 1\<close>, \<open>BlockSize\<close> a positive multiple of the warp size and the occupancy
  target not zero. Suppose that the length of the matrix and the work of one grid fit the
  index type together, \<open>lineLen * nLines + (occupy * BlockSize + 32) * VecElems \<le> 2^31\<close>,
  and that the matrix reaches a boundary of the vector width that \<open>run\<close> dispatches with,
  \<open>roundUp(in) \<le> in + lineLen * nLines\<close>. Then the call with \<open>alongLines = false\<close>
  terminates, all its accesses are within the buffers and aligned, and afterwards
  \<open>out[i] = op(in[i], vecs[i / lineLen]...)\<close> for every offset \<open>i\<close> of the matrix, while \<open>out\<close>
  is unchanged elsewhere. The two inputs of the sections below violate the second and
  the first supposition.
\<close>

lemma linewise_across_correct:
  assumes "0 < sz" "int sz dvd inA" "int sz dvd outA" "0 < lineLen" "0 < BS" "32 dvd BS" "occupy \<noteq> 0"
    and "lineLen * nLines + (uint occupy * BS + 32) * 2 ^ k \<le> 2147483648"
    and "roundUp (int (width (run (sz * 2 ^ k) BS sz occupy outA inA lineLen nLines False))) inA
           \<le> inA + lineLen * nLines * int sz"
  shows "\<exists>mem. linewise (sz * 2 ^ k) BS sz occupy outA inA lineLen nLines False op src vecs shm out0
           = Some (Inr mem)
      \<and> (\<forall>i. mem i = (if 0 \<le> i \<and> i < lineLen * nLines
                       then op (src i) (map (\<lambda>v. v (i div lineLen)) vecs) else out0 i))"
proof -
  from run_dispatch [OF assms(1), of k BS occupy outA inA lineLen nLines False]
  obtain j where j: "j \<le> k"
      "width (run (sz * 2 ^ k) BS sz occupy outA inA lineLen nLines False) = sz * 2 ^ j"
      "launches (run (sz * 2 ^ k) BS sz occupy outA inA lineLen nLines False)
          = matrixLinewiseVecCols (int (sz * 2 ^ j)) BS (int sz) occupy inA lineLen nLines"
      "j = 0 \<or> areSameAlignOffsets (int (sz * 2 ^ j)) inA outA" by auto
  define V :: int where "V = 2 ^ j"
  have V: "0 < V" by (simp add: V_def)
  have W: "int (sz * 2 ^ j) = V * int sz" by (simp add: V_def)
  have al: "inA mod int (sz * 2 ^ j) = outA mod int (sz * 2 ^ j)"
  proof (cases "j = 0")
    case True
    then show ?thesis using assms(2,3) by (simp add: mod_eq_0_iff_dvd)
  next
    case False
    then show ?thesis using j(4) by (simp add: areSameAlignOffsets_def)
  qed
  have "(2::int) ^ j \<le> 2 ^ k" using j(1) by simp
  moreover have "0 \<le> uint occupy * BS + 32" using assms(5) by simp
  ultimately have "(uint occupy * BS + 32) * V \<le> (uint occupy * BS + 32) * 2 ^ k"
    unfolding V_def by (intro mult_left_mono) simp_all
  then have small: "lineLen * nLines + (uint occupy * BS + 32) * V \<le> 2147483648"
    using assms(8) by linarith
  have sz: "0 < int sz" using assms(1) by simp
  have good: "roundUp (int (sz * 2 ^ j)) inA \<le> inA + lineLen * nLines * int sz"
    using assms(9) unfolding j(2) .
  from matrixLinewiseVecCols_ok [OF sz V W assms(2,3) al assms(4,5,6,7) small good,
      where op = op and src = src and vecs = vecs and shm = shm]
  obtain tr where tr: "exec_stream (int sz) op src vecs shm
        (launches (run (sz * 2 ^ k) BS sz occupy outA inA lineLen nLines False)) = Some tr"
      "trace_ok (int sz) outA inA (lineLen * nLines) (if False then lineLen else nLines)
         (cols_result lineLen op src vecs) {0..<lineLen * nLines} tr"
    unfolding j(3) by auto
  from linewise_of_trace_ok [OF tr, of out0]
  show ?thesis unfolding cols_result_def atLeastLessThan_iff .
qed

text \<open>
  The suppositions hold, for instance, at the input of the end-to-end scenario with \<open>in\<close>
  and \<open>out\<close> 4 bytes behind a multiple of 16.
\<close>

lemma linewise_across_correct_example:
  "\<exists>mem. linewise 16 256 4 5120 1028 4 4 3 False (\<lambda>a bs. a - sum_list bs) (\<lambda>i. i + 1)
            [\<lambda>i. 10 * (i + 1)] (\<lambda>_. 0) (\<lambda>_. 0) = Some (Inr mem)
      \<and> (\<forall>i. mem i = (if 0 \<le> i \<and> i < 4 * 3
                       then (\<lambda>a bs. a - sum_list bs) ((\<lambda>i. i + 1) i) (map (\<lambda>v. v (i div 4)) [\<lambda>i. 10 * (i + 1)])
                       else (\<lambda>_. 0) i))"
proof -
  have w: "width (run 16 256 4 5120 1028 4 4 3 False) = 16" by code_simp
  have "roundUp (int (width (run (4 * 2 ^ 2) 256 4 5120 1028 4 4 3 False))) 4 \<le> 4 + 4 * 3 * int 4"
    using w by (simp add: roundUp_def)
  from linewise_across_correct [where sz = 4 and k = 2 and inA = 4 and outA = 1028 and lineLen = 4
      and nLines = 3 and BS = 256 and occupy = 5120 and op = "\<lambda>a bs. a - sum_list bs"
      and src = "\<lambda>i. i + 1" and vecs = "[\<lambda>i. 10 * (i + 1)]" and shm = "\<lambda>_. 0" and ?out0.0 = "\<lambda>_. 0",
      OF _ _ _ _ _ _ _ _ this]
  show ?thesis by simp
qed

section \<open>The striped strategy without overflow\<close>

text \<open>
  The same for a call with \<open>alongLines = true\<close>: the loop of \<open>vectorRows\<close>, the staging of
  the vectors by the block, the two kernels and the host function.
\<close>

lemma trace_ok_append:
  assumes "trace_ok sz outA inA totalLen vecLen f S1 tr1" "trace_ok sz outA inA totalLen vecLen f S2 tr2"
  shows "trace_ok sz outA inA totalLen vecLen f (S1 \<union> S2) (tr1 @ tr2)"
  using assms unfolding trace_ok_def by (auto simp: stores_of_append image_Un)

lemma vectorRows_step_ok:
  assumes "0 < V" "0 \<le> p" "p + V \<le> totalLen"
    and "(inA + p * sz) mod (V * sz) = 0" "(outA + p * sz) mod (V * sz) = 0"
    and "\<And>k. 0 \<le> k \<Longrightarrow> k < V \<Longrightarrow> g k = f (p + k)"
  shows "trace_ok sz outA inA totalLen vecLen f {p..<p + V} [LdIn p V, StOut p (map g [0..V - 1])]"
proof -
  have len: "int (length (map g [0..V - 1])) = V" using assms(1) by (simp add: upto_conv_upt)
  have st: "stores_of [LdIn p V, StOut p (map g [0..V - 1])]
        = map (\<lambda>k. (p + int k, f (p + int k))) [0..<nat V]"
    using assms(6) by (simp add: upto_conv_upt)
  have "fst ` set (map (\<lambda>k. (p + int k, f (p + int k))) [0..<nat V]) = {p..<p + V}" (is "?l = ?r")
  proof (intro set_eqI iffI)
    fix x assume "x \<in> ?r"
    then have "nat (x - p) \<in> set [0..<nat V]" "x = p + int (nat (x - p))" by auto
    then show "x \<in> ?l" by (metis (no_types, lifting) fst_conv image_eqI list.set_map)
  qed auto
  then show ?thesis
    unfolding trace_ok_def st using assms(2-5) len by (auto simp del: length_map)
qed

lemma dvd_step: "(d::int) dvd j - (i + d) \<longleftrightarrow> d dvd j - i"
  using dvd_diff_self_iff [of d "j - i"] by (simp add: algebra_simps)

lemma vectorRows_loop_ok:
  fixes tr :: "'a access list"
  assumes "0 < V" "0 < d" "len + d \<le> 2147483648"
  shows "0 \<le> i \<Longrightarrow> (\<And>j. i \<le> j \<Longrightarrow> j < len \<Longrightarrow> d dvd (j - i) \<Longrightarrow>
        0 \<le> base + j * V \<and> base + j * V + V \<le> totalLen
        \<and> (inA + (base + j * V) * sz) mod (V * sz) = 0
        \<and> (outA + (base + j * V) * sz) mod (V * sz) = 0
        \<and> (\<forall>k. 0 \<le> k \<longrightarrow> k < V \<longrightarrow>
              op (src (base + j * V + k)) (map (\<lambda>a. a ! nat k) args') = f (base + j * V + k)))
     \<Longrightarrow> \<exists>tr'. vectorRows_loop V op src base len d args' i tr = Some (tr @ tr')
        \<and> trace_ok sz outA inA totalLen vecLen f
             {p. \<exists>j. i \<le> j \<and> j < len \<and> d dvd (j - i) \<and> base + j * V \<le> p \<and> p < base + j * V + V} tr'"
proof (induction "nat (len - i)" arbitrary: i tr rule: less_induct)
  case less
  let ?S = "\<lambda>i. {p. \<exists>j. i \<le> j \<and> j < len \<and> d dvd (j - i) \<and> base + j * V \<le> p \<and> p < base + j * V + V}"
  show ?case
  proof (cases "i < len")
    case False
    have "?S i = {}" using False by auto
    moreover have "vectorRows_loop V op src base len d args' i tr = Some tr"
      using False by (subst vectorRows_loop.simps) simp
    ultimately show ?thesis by (simp add: trace_ok_def)
  next
    case True
    define p where "p = base + i * V"
    define g where "g = (\<lambda>k. op (src (p + k)) (map (\<lambda>a. a ! nat k) args'))"
    let ?step = "[LdIn p V, StOut p (map g [0..V - 1])]"
    have "idx (i + d) = i + d" using True less.prems(1) assms(2,3) by (intro idx_id) simp_all
    then have unf: "vectorRows_loop V op src base len d args' i tr
        = vectorRows_loop V op src base len d args' (i + d) (tr @ ?step)"
      using True by (subst vectorRows_loop.simps) (simp add: p_def g_def Let_def)
    have c: "0 \<le> p \<and> p + V \<le> totalLen
        \<and> (inA + p * sz) mod (V * sz) = 0 \<and> (outA + p * sz) mod (V * sz) = 0
        \<and> (\<forall>k. 0 \<le> k \<longrightarrow> k < V \<longrightarrow> g k = f (p + k))"
      using less.prems(2) [of i] True by (simp add: p_def g_def)
    have s1: "trace_ok sz outA inA totalLen vecLen f {p..<p + V} ?step"
      by (rule vectorRows_step_ok [OF assms(1)]) (use c in simp_all)
    have m: "nat (len - (i + d)) < nat (len - i)" using True assms(2) by simp
    have pre: "0 \<le> base + j * V \<and> base + j * V + V \<le> totalLen
        \<and> (inA + (base + j * V) * sz) mod (V * sz) = 0
        \<and> (outA + (base + j * V) * sz) mod (V * sz) = 0
        \<and> (\<forall>k. 0 \<le> k \<longrightarrow> k < V \<longrightarrow>
              op (src (base + j * V + k)) (map (\<lambda>a. a ! nat k) args') = f (base + j * V + k))"
      if "i + d \<le> j" "j < len" "d dvd (j - (i + d))" for j
    proof (rule less.prems(2))
      show "i \<le> j" using that(1) assms(2) by simp
      show "j < len" by (rule that(2))
      show "d dvd (j - i)" using that(3) by (simp only: dvd_step)
    qed
    have i0: "0 \<le> i + d" using less.prems(1) assms(2) by simp
    from less.hyps [OF m i0 pre, of "tr @ ?step"]
    obtain tr2 where tr2: "vectorRows_loop V op src base len d args' (i + d) (tr @ ?step) = Some ((tr @ ?step) @ tr2)"
      "trace_ok sz outA inA totalLen vecLen f (?S (i + d)) tr2" by blast
    have U: "{p..<p + V} \<union> ?S (i + d) = ?S i" (is "?l = ?r")
    proof (intro set_eqI iffI)
      fix x assume "x \<in> ?l"
      then show "x \<in> ?r"
      proof
        assume "x \<in> {p..<p + V}"
        then have "i \<le> i \<and> i < len \<and> d dvd (i - i) \<and> base + i * V \<le> x \<and> x < base + i * V + V"
          using True by (simp add: p_def)
        then show ?thesis by blast
      next
        assume "x \<in> ?S (i + d)"
        then obtain j where j: "i + d \<le> j" "j < len" "d dvd (j - (i + d))"
            "base + j * V \<le> x" "x < base + j * V + V" by blast
        have "d dvd (j - i)" using j(3) by (simp only: dvd_step)
        moreover have "i \<le> j" using j(1) assms(2) by simp
        ultimately show ?thesis using j by blast
      qed
    next
      fix x assume "x \<in> ?r"
      then obtain j where j: "i \<le> j" "j < len" "d dvd (j - i)"
            "base + j * V \<le> x" "x < base + j * V + V" by blast
      show "x \<in> ?l"
      proof (cases "j = i")
        case True
        then show ?thesis using j by (simp add: p_def)
      next
        case False
        then have "0 < j - i" using j(1) by simp
        then have "d \<le> j - i" using j(3) by (intro zdvd_imp_le) simp_all
        moreover have "d dvd (j - (i + d))" using j(3) by (simp only: dvd_step)
        ultimately have "i + d \<le> j \<and> j < len \<and> d dvd (j - (i + d))
            \<and> base + j * V \<le> x \<and> x < base + j * V + V" using j by simp
        then have "x \<in> ?S (i + d)" by blast
        then show ?thesis by simp
      qed
    qed
    have "trace_ok sz outA inA totalLen vecLen f (?S i) (?step @ tr2)"
      using trace_ok_append [OF s1 tr2(2)] unfolding U .
    then show ?thesis using unf tr2(1) by (intro exI [of _ "?step @ tr2"]) simp
  qed
qed

lemma nth_map_upto:
  assumes "0 \<le> t" "t < n"
  shows "(map h [0..n - 1]) ! nat t = h t"
proof -
  have "nat t < nat n" using assms by simp
  then show ?thesis unfolding upto_conv_upt using assms(1) by simp
qed

lemma loadVec_read_staged:
  assumes c: "\<And>x. shm' x = (if 0 \<le> x - off \<and> x - off < V * BS
                          then p ((blockOffset + (x - off)) mod rowLen) else shm x)"
    and "0 \<le> t" "t < BS"
  shows "loadVec_read V shm' off t = map (\<lambda>k. p ((blockOffset + t * V + k) mod rowLen)) [0..V - 1]"
  unfolding loadVec_read_def
proof (rule map_cong [OF refl])
  fix k assume "k \<in> set [0..V - 1]"
  then have k: "0 \<le> k" "k < V" by simp_all
  have "t * V + k < t * V + V" using k by simp
  also have "\<dots> = (t + 1) * V" by (simp add: algebra_simps)
  also have "\<dots> \<le> BS * V" using assms(3) k by (intro mult_right_mono) simp_all
  finally have 1: "t * V + k < V * BS" by (simp add: mult.commute)
  have 2: "0 \<le> t * V + k" using assms(2) k by simp
  have "off + t * V + k - off = t * V + k" by simp
  then show "shm' (off + t * V + k) = p ((blockOffset + t * V + k) mod rowLen)"
    using 1 2 by (simp add: c algebra_simps)
qed

lemma loadVecs_spec:
  fixes shm :: "int \<Rightarrow> 'a"
  assumes "0 < rowLen" "0 < BS" "0 \<le> blockOffset"
  shows "\<exists>tr. loadVecs V BS rowLen blockOffset l ps workOffset (shm, tr0)
        = Some (map (\<lambda>p. map (\<lambda>t. map (\<lambda>k. p ((blockOffset + t * V + k) mod rowLen)) [0..V - 1])
                            [0..BS - 1]) ps, tr0 @ tr)
      \<and> list_all (vec_load_within 0 (rowLen - 1)) tr"
proof (induction ps arbitrary: l workOffset shm tr0)
  case Nil
  show ?case by simp
next
  case (Cons p ps)
  define off where "off = workOffset XOR V * BS"
  from loadVec_block_shm [OF assms, where V = V and l = l and p = p and off = off
      and shm = shm and ?tr0.0 = tr0]
  obtain st1 tr1 where st1: "loadVec_fill_block V BS rowLen l p off blockOffset [0..BS - 1] (shm, tr0) = Some st1"
    and c: "\<And>x. fst st1 x = (if 0 \<le> x - off \<and> x - off < V * BS
                          then p ((blockOffset + (x - off)) mod rowLen) else shm x)"
    and tr1: "snd st1 = tr0 @ tr1" "list_all (vec_load_within 0 (rowLen - 1)) tr1"
    by blast
  from Cons [of "Suc l" off "fst st1" "snd st1"]
  obtain tr2 where tr2: "loadVecs V BS rowLen blockOffset (Suc l) ps off (fst st1, snd st1)
        = Some (map (\<lambda>p. map (\<lambda>t. map (\<lambda>k. p ((blockOffset + t * V + k) mod rowLen)) [0..V - 1])
                            [0..BS - 1]) ps, snd st1 @ tr2)"
      "list_all (vec_load_within 0 (rowLen - 1)) tr2" by blast
  have rd: "map (loadVec_read V (fst st1) off) [0..BS - 1]
      = map (\<lambda>t. map (\<lambda>k. p ((blockOffset + t * V + k) mod rowLen)) [0..V - 1]) [0..BS - 1]"
  proof (rule map_cong [OF refl])
    fix t assume "t \<in> set [0..BS - 1]"
    then have "0 \<le> t" "t < BS" by simp_all
    from loadVec_read_staged [where shm' = "fst st1", OF c this]
    show "loadVec_read V (fst st1) off t
        = map (\<lambda>k. p ((blockOffset + t * V + k) mod rowLen)) [0..V - 1]" .
  qed
  have "loadVecs V BS rowLen blockOffset l (p # ps) workOffset (shm, tr0)
      = Some (map (\<lambda>p. map (\<lambda>t. map (\<lambda>k. p ((blockOffset + t * V + k) mod rowLen)) [0..V - 1])
                            [0..BS - 1]) (p # ps), tr0 @ (tr1 @ tr2))"
  proof -
    have "loadVecs V BS rowLen blockOffset l (p # ps) workOffset (shm, tr0)
        = Option.bind (loadVec_fill_block V BS rowLen l p off blockOffset [0..BS - 1] (shm, tr0))
           (\<lambda>st1. map_option
                (\<lambda>r. (map (loadVec_read V (fst st1) off) [0..BS - 1] # fst r, snd r))
                (loadVecs V BS rowLen blockOffset (Suc l) ps off st1))"
      by (simp add: Let_def off_def)
    also have "\<dots> = map_option
                (\<lambda>r. (map (loadVec_read V (fst st1) off) [0..BS - 1] # fst r, snd r))
                (loadVecs V BS rowLen blockOffset (Suc l) ps off (fst st1, snd st1))"
      by (simp add: st1)
    also have "\<dots> = Some (map (loadVec_read V (fst st1) off) [0..BS - 1]
                # map (\<lambda>p. map (\<lambda>t. map (\<lambda>k. p ((blockOffset + t * V + k) mod rowLen)) [0..V - 1])
                            [0..BS - 1]) ps, snd st1 @ tr2)"
      by (simp only: tr2(1) option.map fst_conv snd_conv)
    finally show ?thesis unfolding rd tr1(1) by simp
  qed
  moreover have "list_all (vec_load_within 0 (rowLen - 1)) (tr1 @ tr2)" using tr1(2) tr2(2) by simp
  ultimately show ?case by blast
qed

lemma trace_ok_vec_loads:
  assumes "list_all (vec_load_within 0 (rowLen - 1)) tr"
  shows "trace_ok sz outA inA totalLen rowLen f {} tr"
proof -
  have "check_access sz outA inA totalLen rowLen a = None" if "vec_load_within 0 (rowLen - 1) a" for a :: "'a access"
    using that by (cases a) simp_all
  then show ?thesis
    using assms stores_of_vec_loads [OF assms] unfolding trace_ok_def by (simp add: list_all_iff)
qed

lemma rows_block_ok:
  fixes shm :: "int \<Rightarrow> 'a"
  assumes "0 < rowLen" "0 < BS" "0 \<le> blockOffset" "0 < V" "0 < gridDim"
    and rng: "0 \<le> b" "0 \<le> len" "len + BS * gridDim < 2147483648"
    and cond: "\<And>t j. 0 \<le> t \<Longrightarrow> t < BS \<Longrightarrow> t + b * BS \<le> j \<Longrightarrow> j < len
        \<Longrightarrow> (BS * gridDim) dvd (j - (t + b * BS)) \<Longrightarrow>
        0 \<le> base + j * V \<and> base + j * V + V \<le> totalLen
        \<and> (inA + (base + j * V) * sz) mod (V * sz) = 0
        \<and> (outA + (base + j * V) * sz) mod (V * sz) = 0
        \<and> (\<forall>k. 0 \<le> k \<longrightarrow> k < V \<longrightarrow>
              (blockOffset + t * V + k) mod rowLen = (base + j * V + k) mod rowLen)"
  shows "\<exists>tr. Option.bind (loadVecs V BS rowLen blockOffset 0 vecs workOffset (shm, []))
           (\<lambda>r. map_option (\<lambda>trs. snd r @ concat trs)
              (those (map (\<lambda>threadIdx.
                  vectorRows V BS gridDim op src base len
                    (map (\<lambda>c. c ! nat threadIdx) (fst r)) b threadIdx)
                [0..BS - 1]))) = Some tr
      \<and> trace_ok sz outA inA totalLen rowLen (rows_result rowLen op src vecs)
          {p. \<exists>t j. 0 \<le> t \<and> t < BS \<and> t + b * BS \<le> j \<and> j < len
                \<and> (BS * gridDim) dvd (j - (t + b * BS))
                \<and> base + j * V \<le> p \<and> p < base + j * V + V} tr"
proof -
  let ?f = "rows_result rowLen op src vecs"
  let ?d = "BS * gridDim"
  define chs where "chs = map (\<lambda>p. map (\<lambda>t. map (\<lambda>k. p ((blockOffset + t * V + k) mod rowLen)) [0..V - 1])
                            [0..BS - 1]) vecs"
  from loadVecs_spec [OF assms(1,2,3), where V = V and l = 0 and ps = vecs and workOffset = workOffset
      and shm = shm and ?tr0.0 = "[]"]
  obtain tr0 where tr0: "loadVecs V BS rowLen blockOffset 0 vecs workOffset (shm, []) = Some (chs, tr0)"
    "list_all (vec_load_within 0 (rowLen - 1)) tr0" unfolding chs_def by auto
  let ?h = "\<lambda>t. vectorRows V BS gridDim op src base len (map (\<lambda>c. c ! nat t) chs) b t"
  let ?S = "\<lambda>t. {p. \<exists>j. t + b * BS \<le> j \<and> j < len \<and> ?d dvd (j - (t + b * BS))
                \<and> base + j * V \<le> p \<and> p < base + j * V + V}"
  have d: "0 < ?d" using assms(2,5) by simp
  have id: "idx ?d = ?d" using d rng(2,3) by (intro idx_id) simp_all
  have dl: "len + ?d \<le> 2147483648" using rng(3) by simp
  have th: "\<exists>tr. ?h t = Some tr \<and> trace_ok sz outA inA totalLen rowLen ?f (?S t) tr"
    if "t \<in> set [0..BS - 1]" for t
  proof -
    have t: "0 \<le> t" "t < BS" using that by simp_all
    define args' where "args' = map (\<lambda>c. c ! nat t) chs"
    have a: "args' = map (\<lambda>p. map (\<lambda>k. p ((blockOffset + t * V + k) mod rowLen)) [0..V - 1]) vecs"
      unfolding args'_def chs_def by (simp add: nth_map_upto [OF t] comp_def)
    have ak: "map (\<lambda>a. a ! nat k) args' = map (\<lambda>p. p ((blockOffset + t * V + k) mod rowLen)) vecs"
      if "0 \<le> k" "k < V" for k
      unfolding a by (simp add: nth_map_upto [OF that] comp_def)
    have "\<exists>tr'. vectorRows_loop V op src base len ?d args' (t + b * BS) [] = Some ([] @ tr')
        \<and> trace_ok sz outA inA totalLen rowLen ?f (?S t) tr'"
    proof (rule vectorRows_loop_ok [OF assms(4) d dl])
      have "0 \<le> b * BS" using rng(1) assms(2) by simp
      then show "0 \<le> t + b * BS" using t(1) by simp
    next
      fix j assume j: "t + b * BS \<le> j" "j < len" "?d dvd j - (t + b * BS)"
      note c = cond [OF t j]
      have "op (src (base + j * V + k)) (map (\<lambda>a. a ! nat k) args') = ?f (base + j * V + k)"
        if "0 \<le> k" "k < V" for k
        using c that by (simp add: ak [OF that] rows_result_def)
      then show "0 \<le> base + j * V \<and> base + j * V + V \<le> totalLen
        \<and> (inA + (base + j * V) * sz) mod (V * sz) = 0
        \<and> (outA + (base + j * V) * sz) mod (V * sz) = 0
        \<and> (\<forall>k. 0 \<le> k \<longrightarrow> k < V \<longrightarrow>
              op (src (base + j * V + k)) (map (\<lambda>a. a ! nat k) args') = ?f (base + j * V + k))"
        using c by simp
    qed
    then show ?thesis unfolding vectorRows_def args'_def id by simp
  qed
  from trace_ok_concat [of "[0..BS - 1]" ?h sz outA inA totalLen rowLen ?f ?S, OF th]
  obtain trc where trc: "map_option concat (those (map ?h [0..BS - 1])) = Some trc"
    "trace_ok sz outA inA totalLen rowLen ?f (\<Union>t \<in> set [0..BS - 1]. ?S t) trc" by blast
  from trc(1) obtain trs where trs: "those (map ?h [0..BS - 1]) = Some trs" "concat trs = trc" by auto
  have r: "Option.bind (loadVecs V BS rowLen blockOffset 0 vecs workOffset (shm, []))
           (\<lambda>r. map_option (\<lambda>trs. snd r @ concat trs)
              (those (map (\<lambda>threadIdx.
                  vectorRows V BS gridDim op src base len
                    (map (\<lambda>c. c ! nat threadIdx) (fst r)) b threadIdx)
                [0..BS - 1]))) = Some (tr0 @ trc)"
    by (simp add: tr0(1) trs)
  have U: "(\<Union>t \<in> set [0..BS - 1]. ?S t)
      = {p. \<exists>t j. 0 \<le> t \<and> t < BS \<and> t + b * BS \<le> j \<and> j < len
                \<and> ?d dvd (j - (t + b * BS)) \<and> base + j * V \<le> p \<and> p < base + j * V + V}"
    by auto
  have "trace_ok sz outA inA totalLen rowLen ?f ({} \<union> (\<Union>t \<in> set [0..BS - 1]. ?S t)) (tr0 @ trc)"
    by (rule trace_ok_append [OF trace_ok_vec_loads [OF tr0(2)] trc(2)])
  then show ?thesis unfolding r U by simp
qed

lemma dvd_small_eq:
  fixes x d :: int
  assumes "d dvd x" "0 \<le> x" "x < d"
  shows "x = 0"
proof (rule ccontr)
  assume "x \<noteq> 0"
  then have "0 < x" using assms(2) by simp
  then have "d \<le> x" using assms(1) by (intro zdvd_imp_le) simp_all
  then show False using assms(3) by simp
qed

lemma RowsTail_block_ok:
  fixes shm :: "int \<Rightarrow> 'a"
  assumes "0 < sz" "0 < rowLen" "sz dvd inA" "sz dvd outA"
    and "0 \<le> off" "off \<le> M" "off \<le> L" "0 \<le> end'" "L - end' \<le> M" "end' \<le> L"
    and "0 < M" "M \<le> 2 ^ 28"
    and "b = 0 \<or> b = 1"
  shows "\<exists>tr. exec_block sz op src vecs shm (RowsTail M off end' rowLen L) b = Some tr
      \<and> trace_ok sz outA inA L rowLen (rows_result rowLen op src vecs)
           (if b = 0 then {0..<off} else {end'..<L}) tr"
proof (cases "b = 0")
  case True
  have al: "(a + x * sz) mod (1 * sz) = 0" if "sz dvd a" for a x
    using that by (simp add: mod_eq_0_iff_dvd)
  have "\<exists>tr. Option.bind (loadVecs 1 M rowLen 0 0 vecs M (shm, []))
           (\<lambda>r. map_option (\<lambda>trs. snd r @ concat trs)
              (those (map (\<lambda>threadIdx.
                  vectorRows 1 M 2 op src 0 off
                    (map (\<lambda>c. c ! nat threadIdx) (fst r)) 0 threadIdx)
                [0..M - 1]))) = Some tr
      \<and> trace_ok sz outA inA L rowLen (rows_result rowLen op src vecs)
          {p. \<exists>t j. 0 \<le> t \<and> t < M \<and> t + 0 * M \<le> j \<and> j < off
                \<and> (M * 2) dvd (j - (t + 0 * M))
                \<and> 0 + j * 1 \<le> p \<and> p < 0 + j * 1 + 1} tr"
  proof (rule rows_block_ok [OF assms(2,11)])
    show "(0::int) \<le> 0" "(0::int) < 1" "(0::int) < 2" "(0::int) \<le> 0" "0 \<le> off"
      using assms(5) by simp_all
    show "off + M * 2 < 2147483648" using assms(6,12) by simp
    fix t j assume a: "0 \<le> t" "t < M" "t + 0 * M \<le> j" "j < off" "M * 2 dvd j - (t + 0 * M)"
    have "j - t = 0" using a assms(6) by (intro dvd_small_eq [of "M * 2"]) simp_all
    then have j: "j = t" by simp
    show "0 \<le> 0 + j * 1 \<and> 0 + j * 1 + 1 \<le> L
        \<and> (inA + (0 + j * 1) * sz) mod (1 * sz) = 0
        \<and> (outA + (0 + j * 1) * sz) mod (1 * sz) = 0
        \<and> (\<forall>k. 0 \<le> k \<longrightarrow> k < 1 \<longrightarrow>
              (0 + t * 1 + k) mod rowLen = (0 + j * 1 + k) mod rowLen)"
      using a assms(7) al [OF assms(3)] al [OF assms(4)] by (simp add: j)
  qed
  moreover have "{p. \<exists>t j. 0 \<le> t \<and> t < M \<and> t + 0 * M \<le> j \<and> j < off
                \<and> (M * 2) dvd (j - (t + 0 * M))
                \<and> 0 + j * 1 \<le> p \<and> p < 0 + j * 1 + 1} = {0..<off}" (is "?l = ?r")
  proof (intro set_eqI iffI)
    fix p assume "p \<in> ?r"
    then have "0 \<le> p \<and> p < M \<and> p + 0 * M \<le> p \<and> p < off \<and> (M * 2) dvd (p - (p + 0 * M))
        \<and> 0 + p * 1 \<le> p \<and> p < 0 + p * 1 + 1" using assms(6) by simp
    then show "p \<in> ?l" by blast
  qed auto
  ultimately show ?thesis
    using True by (simp add: matrixLinewiseVecRowsTailKernel_def Let_def)
next
  case False
  then have b: "b = 1" using assms(13) by simp
  have al: "(a + x * sz) mod (1 * sz) = 0" if "sz dvd a" for a x
    using that by (simp add: mod_eq_0_iff_dvd)
  have e: "end' smod rowLen = end' mod rowLen" using sdiv_smod_nonneg(2) [OF assms(8,2)] .
  have "\<exists>tr. Option.bind (loadVecs 1 M rowLen (end' mod rowLen) 0 vecs M (shm, []))
           (\<lambda>r. map_option (\<lambda>trs. snd r @ concat trs)
              (those (map (\<lambda>threadIdx.
                  vectorRows 1 M 2 op src (end' - M) (L - end' + M)
                    (map (\<lambda>c. c ! nat threadIdx) (fst r)) 1 threadIdx)
                [0..M - 1]))) = Some tr
      \<and> trace_ok sz outA inA L rowLen (rows_result rowLen op src vecs)
          {p. \<exists>t j. 0 \<le> t \<and> t < M \<and> t + 1 * M \<le> j \<and> j < L - end' + M
                \<and> (M * 2) dvd (j - (t + 1 * M))
                \<and> end' - M + j * 1 \<le> p \<and> p < end' - M + j * 1 + 1} tr"
  proof (rule rows_block_ok [OF assms(2,11)])
    show "0 \<le> end' mod rowLen" using assms(2) by simp
    show "(0::int) < 1" "(0::int) < 2" "(0::int) \<le> 1" by simp_all
    show "0 \<le> L - end' + M" using assms(10,11) by simp
    show "L - end' + M + M * 2 < 2147483648" using assms(9,12) by simp
    fix t j assume a: "0 \<le> t" "t < M" "t + 1 * M \<le> j" "j < L - end' + M" "M * 2 dvd j - (t + 1 * M)"
    have "j - (t + 1 * M) = 0" using a assms(9) by (intro dvd_small_eq [of "M * 2"]) simp_all
    then have j: "j = t + M" by simp
    have "(end' mod rowLen + t * 1 + k) mod rowLen = (end' - M + j * 1 + k) mod rowLen" for k
    proof -
      have "(end' mod rowLen + (t + k)) mod rowLen = (end' + (t + k)) mod rowLen"
        by (rule mod_add_left_eq)
      then show ?thesis by (simp add: j algebra_simps)
    qed
    then show "0 \<le> end' - M + j * 1 \<and> end' - M + j * 1 + 1 \<le> L
        \<and> (inA + (end' - M + j * 1) * sz) mod (1 * sz) = 0
        \<and> (outA + (end' - M + j * 1) * sz) mod (1 * sz) = 0
        \<and> (\<forall>k. 0 \<le> k \<longrightarrow> k < 1 \<longrightarrow>
              (end' mod rowLen + t * 1 + k) mod rowLen = (end' - M + j * 1 + k) mod rowLen)"
      using a assms(8) al [OF assms(3)] al [OF assms(4)] by (simp add: j)
  qed
  moreover have "{p. \<exists>t j. 0 \<le> t \<and> t < M \<and> t + 1 * M \<le> j \<and> j < L - end' + M
                \<and> (M * 2) dvd (j - (t + 1 * M))
                \<and> end' - M + j * 1 \<le> p \<and> p < end' - M + j * 1 + 1} = {end'..<L}" (is "?l = ?r")
  proof (intro set_eqI iffI)
    fix p assume "p \<in> ?r"
    then have "0 \<le> p - end' \<and> p - end' < M \<and> (p - end') + 1 * M \<le> p - end' + M
        \<and> p - end' + M < L - end' + M \<and> (M * 2) dvd ((p - end' + M) - ((p - end') + 1 * M))
        \<and> end' - M + (p - end' + M) * 1 \<le> p \<and> p < end' - M + (p - end' + M) * 1 + 1"
      using assms(9) by simp
    then show "p \<in> ?l" by blast
  next
    fix p assume "p \<in> ?l"
    then obtain t j where a: "0 \<le> t" "t < M" "t + 1 * M \<le> j" "j < L - end' + M"
        "end' - M + j * 1 \<le> p" "p < end' - M + j * 1 + 1" by blast
    then show "p \<in> ?r" by simp
  qed
  ultimately show ?thesis
    using b by (simp add: matrixLinewiseVecRowsTailKernel_def Let_def e)
qed

lemma RowsTail_launch_ok:
  fixes shm :: "int \<Rightarrow> 'a"
  assumes "0 < sz" "0 < rowLen" "sz dvd inA" "sz dvd outA"
    and "0 \<le> off" "off \<le> M" "off \<le> L" "0 \<le> end'" "L - end' \<le> M" "end' \<le> L"
    and "0 < M" "M \<le> 2 ^ 28"
  shows "\<exists>tr. exec_launch sz op src vecs shm (RowsTail M off end' rowLen L) = Some tr
      \<and> trace_ok sz outA inA L rowLen (rows_result rowLen op src vecs)
           ({0..<off} \<union> {end'..<L}) tr"
proof -
  let ?S = "\<lambda>b::int. if b = 0 then {0..<off} else {end'..<L}"
  have b: "\<exists>tr. exec_block sz op src vecs shm (RowsTail M off end' rowLen L) b = Some tr
      \<and> trace_ok sz outA inA L rowLen (rows_result rowLen op src vecs) (?S b) tr"
    if "b \<in> set [0..2 - 1]" for b
  proof -
    have "b = 0 \<or> b = 1" using that by auto
    from RowsTail_block_ok [OF assms this] show ?thesis .
  qed
  have "set [0..2 - 1] = {0, 1::int}" by auto
  then have U: "(\<Union>b \<in> set [0..2 - 1]. ?S b) = {0..<off} \<union> {end'..<L}" by (simp add: Un_commute)
  from trace_ok_concat [of "[0..2 - 1]" "exec_block sz op src vecs shm (RowsTail M off end' rowLen L)"
      sz outA inA L rowLen "rows_result rowLen op src vecs" ?S, OF b]
  show ?thesis unfolding U exec_launch_def by simp
qed

lemma RowsMain_launch_ok:
  fixes shm :: "int \<Rightarrow> 'a"
  assumes "0 < sz" "0 < rowLen" "0 < V" "W sdiv sz = V" "0 \<le> off" "0 < A" "0 < BS" "0 < gs"
    and "off + A * V \<le> L"
    and "(inA + off * sz) mod (V * sz) = 0" "(outA + off * sz) mod (V * sz) = 0"
    and stripe: "A \<le> BS * gs \<or> rowLen dvd BS * gs * V"
    and rng: "A + BS * gs < 2147483648"
  shows "\<exists>tr. exec_launch sz op src vecs shm (RowsMain W BS gs off off rowLen (A * V)) = Some tr
      \<and> trace_ok sz outA inA L rowLen (rows_result rowLen op src vecs) {off..<off + A * V} tr"
proof -
  let ?f = "rows_result rowLen op src vecs"
  let ?T = "\<lambda>b. {p. \<exists>t j. 0 \<le> t \<and> t < BS \<and> t + b * BS \<le> j \<and> j < A
                \<and> (BS * gs) dvd (j - (t + b * BS))
                \<and> off + j * V \<le> p \<and> p < off + j * V + V}"
  have AV: "Pow2_div V (A * V) = A" using assms(3) by (simp add: Pow2_div_def)
  have blk: "\<exists>tr. exec_block sz op src vecs shm (RowsMain W BS gs off off rowLen (A * V)) b = Some tr
      \<and> trace_ok sz outA inA L rowLen ?f (?T b) tr"
    if "b \<in> set [0..gs - 1]" for b
  proof -
    have b0: "0 \<le> b" using that by simp
    have "0 \<le> BS * V * b" using b0 assms(3,7) by simp
    then have o0: "0 \<le> off + BS * V * b" using assms(5) by simp
    have bo: "(off + BS * V * b) smod rowLen = (off + BS * V * b) mod rowLen"
      using sdiv_smod_nonneg(2) [OF o0 assms(2)] .
    have "\<exists>tr. Option.bind (loadVecs V BS rowLen ((off + BS * V * b) mod rowLen) 0 vecs (V * BS) (shm, []))
           (\<lambda>r. map_option (\<lambda>trs. snd r @ concat trs)
              (those (map (\<lambda>threadIdx.
                  vectorRows V BS gs op src off A
                    (map (\<lambda>c. c ! nat threadIdx) (fst r)) b threadIdx)
                [0..BS - 1]))) = Some tr
      \<and> trace_ok sz outA inA L rowLen ?f (?T b) tr"
    proof (rule rows_block_ok [OF assms(2,7) _ assms(3,8) b0 _ rng])
      show "0 \<le> (off + BS * V * b) mod rowLen" using assms(2) by simp
      show "0 \<le> A" using assms(6) by simp
      fix t j assume a: "0 \<le> t" "t < BS" "t + b * BS \<le> j" "j < A" "BS * gs dvd j - (t + b * BS)"
      have "0 \<le> b * BS" using b0 assms(7) by simp
      then have j0: "0 \<le> j" using a(1,3) by linarith
      then have 1: "0 \<le> off + j * V" using assms(3,5) by simp
      have "j + 1 \<le> A" using a(4) by simp
      then have "(j + 1) * V \<le> A * V" using assms(3) by (intro mult_right_mono) simp_all
      then have 2: "off + j * V + V \<le> L" using assms(9) by (simp add: algebra_simps)
      have al: "(x + (off + j * V) * sz) mod (V * sz) = (x + off * sz) mod (V * sz)" for x
      proof -
        have "x + (off + j * V) * sz = (x + off * sz) + j * (V * sz)" by (simp add: algebra_simps)
        then show ?thesis by (simp only: mod_mult_self1)
      qed
      have 3: "(inA + (off + j * V) * sz) mod (V * sz) = 0" unfolding al by (rule assms(10))
      have 4: "(outA + (off + j * V) * sz) mod (V * sz) = 0" unfolding al by (rule assms(11))
      have jm: "(j * V) mod rowLen = ((t + b * BS) * V) mod rowLen"
      proof (cases "A \<le> BS * gs")
        case True
        have "j - (t + b * BS) < BS * gs" using a(1,4) True \<open>0 \<le> b * BS\<close> by linarith
        then have "j - (t + b * BS) = 0"
          using a by (intro dvd_small_eq [of "BS * gs"]) simp_all
        then show ?thesis by simp
      next
        case False
        then have r: "rowLen dvd BS * gs * V" using stripe by simp
        from a(5) obtain n where n: "j - (t + b * BS) = BS * gs * n" by (auto simp: dvd_def)
        have "j * V = (t + b * BS) * V + n * (BS * gs * V)"
          using n by (simp add: algebra_simps)
        moreover from r obtain q where "BS * gs * V = rowLen * q" by (auto simp: dvd_def)
        ultimately have "j * V = (t + b * BS) * V + (n * q) * rowLen" by (simp add: algebra_simps)
        then show ?thesis by (simp only: mod_mult_self1)
      qed
      have 5: "((off + BS * V * b) mod rowLen + t * V + k) mod rowLen = (off + j * V + k) mod rowLen" for k
      proof -
        have "((off + BS * V * b) mod rowLen + (t * V + k)) mod rowLen
            = ((off + BS * V * b) + (t * V + k)) mod rowLen" by (rule mod_add_left_eq)
        also have "(off + BS * V * b) + (t * V + k) = (t + b * BS) * V + (off + k)"
          by (simp add: algebra_simps)
        also have "((t + b * BS) * V + (off + k)) mod rowLen
            = (((t + b * BS) * V) mod rowLen + (off + k)) mod rowLen"
          by (rule mod_add_left_eq [symmetric])
        also have "\<dots> = ((j * V) mod rowLen + (off + k)) mod rowLen" by (simp only: jm)
        also have "\<dots> = (j * V + (off + k)) mod rowLen" by (rule mod_add_left_eq)
        finally show ?thesis by (simp add: algebra_simps)
      qed
      show "0 \<le> off + j * V \<and> off + j * V + V \<le> L
        \<and> (inA + (off + j * V) * sz) mod (V * sz) = 0
        \<and> (outA + (off + j * V) * sz) mod (V * sz) = 0
        \<and> (\<forall>k. 0 \<le> k \<longrightarrow> k < V \<longrightarrow>
              ((off + BS * V * b) mod rowLen + t * V + k) mod rowLen = (off + j * V + k) mod rowLen)"
        using 1 2 3 4 5 by simp
    qed
    then show ?thesis
      unfolding exec_block.simps assms(4) matrixLinewiseVecRowsMainKernel_def Let_def AV bo .
  qed
  have U: "(\<Union>b \<in> set [0..gs - 1]. ?T b) = {off..<off + A * V}" (is "?l = ?r")
  proof (intro set_eqI iffI)
    fix p assume "p \<in> ?l"
    then obtain b t j where a: "0 \<le> b" "0 \<le> t" "t + b * BS \<le> j" "j < A"
        "off + j * V \<le> p" "p < off + j * V + V" by auto
    have "0 \<le> b * BS" using a(1) assms(7) by simp
    then have j0: "0 \<le> j" using a(2,3) by linarith
    then have "0 \<le> j * V" using assms(3) by simp
    then have 1: "off \<le> p" using a(5) by simp
    have "j + 1 \<le> A" using a(4) by simp
    then have "(j + 1) * V \<le> A * V" using assms(3) by (intro mult_right_mono) simp_all
    then have 2: "p < off + A * V" using a(6) by (simp add: algebra_simps)
    show "p \<in> ?r" using 1 2 by simp
  next
    fix p assume "p \<in> ?r"
    then have p: "off \<le> p" "p < off + A * V" by simp_all
    define j where "j = (p - off) div V"
    have j0: "0 \<le> j" using p(1) assms(3) by (simp add: j_def pos_imp_zdiv_nonneg_iff)
    have jA: "j < A" unfolding j_def using p(2) by (subst int_div_less_iff [OF assms(3)]) simp
    have "j * V = (p - off) - (p - off) mod V" by (simp add: j_def minus_mod_eq_div_mult)
    moreover have "0 \<le> (p - off) mod V" "(p - off) mod V < V" using assms(3) by simp_all
    ultimately have pj: "off + j * V \<le> p" "p < off + j * V + V" by linarith+
    have d: "0 < BS * gs" using assms(7,8) by simp
    define g where "g = j mod (BS * gs)"
    define b where "b = g div BS"
    define t where "t = g mod BS"
    have g: "0 \<le> g" "g < BS * gs" "g \<le> j"
      using d j0 by (simp_all add: g_def zmod_le_nonneg_dividend)
    have b: "0 \<le> b" "b < gs"
      using g assms(7) by (simp_all add: b_def pos_imp_zdiv_nonneg_iff int_div_less_iff mult.commute)
    have t: "0 \<le> t" "t < BS" using assms(7) by (simp_all add: t_def)
    have tb: "t + b * BS = g" by (simp add: t_def b_def)
    have "BS * gs dvd j - g" by (simp add: g_def dvd_minus_mod)
    then have "0 \<le> t \<and> t < BS \<and> t + b * BS \<le> j \<and> j < A
                \<and> (BS * gs) dvd (j - (t + b * BS))
                \<and> off + j * V \<le> p \<and> p < off + j * V + V"
      using t g(3) jA pj unfolding tb by simp
    then have "p \<in> ?T b" by blast
    moreover have "b \<in> set [0..gs - 1]" using b by simp
    ultimately show "p \<in> ?l" by blast
  qed
  from trace_ok_concat [of "[0..gs - 1]" _ sz outA inA L rowLen ?f ?T, OF blk]
  show ?thesis unfolding U exec_launch_def gridDim_of.simps .
qed

lemma ceildiv_u_unat:
  fixes a e :: "32 word"
  assumes "1 \<le> unat e" "unat a + unat e \<le> 2 ^ 32"
  shows "unat (ceildiv_u a e) = (unat a + unat e - 1) div unat e"
proof -
  have "0 < unat e" using assms(1) by simp
  then have "e \<noteq> 0" by (simp add: unat_gt_0)
  then have e1: "unat (e - 1) = unat e - 1" by (rule unat_minus_one)
  have "unat a + unat (e - 1) < 2 ^ 32" using assms e1 by simp
  then have "unat (a + (e - 1)) = unat a + unat (e - 1)"
    by (intro iffD1 [OF unat_add_lem]) simp
  moreover have "a + (e - 1) = a + e - 1" by simp
  ultimately have n: "unat (a + e - 1) = unat a + unat e - 1" using e1 assms(1) by simp
  show ?thesis unfolding ceildiv_u_def by (simp add: unat_div n)
qed

lemma block_work_size_unat:
  assumes "0 < BS" "0 < V" "BS * V < 2 ^ 32"
  shows "unat (block_work_size BS V) = nat (BS * V)"
proof -
  have e: "block_work_size BS V = word_of_int (BS * V)" by (simp add: block_work_size_def)
  have "0 \<le> BS * V" using assms(1,2) by simp
  from unat_word_of_int_32 [OF this assms(3)] show ?thesis unfolding e .
qed

lemma vecRows_gridSize_facts:
  fixes V BS rowLen L A :: int
  assumes "0 < BS" "0 < V" "1 \<le> rowLen" "rowLen < 2 ^ 31" "0 < L" "L + BS * V \<le> 2 ^ 32"
    and "occupy \<noteq> 0" "unat occupy < 2 ^ 31" "A * V \<le> L"
  defines "gs \<equiv> uint (vecRows_gridSize BS V occupy rowLen L)"
  shows "0 < gs" "A \<le> BS * gs \<or> rowLen dvd BS * gs * V" "BS * gs * V < L + BS * V"
proof -
  let ?bws = "block_work_size BS V"
  let ?e = "expected_grid_size BS V rowLen"
  let ?X = "ceildiv_u (word_of_int L) ?bws"
  let ?M = "ceildiv_u occupy ?e * ?e"
  have BV: "0 < BS * V" using assms(1,2) by simp
  have BV32: "BS * V < 2 ^ 32" using assms(5,6) by simp
  have bw: "unat ?bws = nat (BS * V)" by (rule block_work_size_unat [OF assms(1,2) BV32])
  have Lw: "unat (word_of_int L :: 32 word) = nat L"
    using assms(5,6) BV by (intro unat_word_of_int_32) simp_all
  have b1: "1 \<le> unat ?bws" using BV by (simp add: bw)
  have sum: "unat (word_of_int L :: 32 word) + unat ?bws \<le> 2 ^ 32"
    unfolding bw Lw using assms(5,6) BV by (simp add: nat_add_distrib [symmetric] nat_le_iff)
  have X: "unat ?X = (nat L + nat (BS * V) - 1) div nat (BS * V)"
    using ceildiv_u_unat [OF b1 sum] by (simp add: bw Lw)
  have Xi: "uint ?X = (L + BS * V - 1) div (BS * V)"
  proof -
    have "uint ?X = int (unat ?X)" by simp
    also have "\<dots> = int (nat L + nat (BS * V) - 1) div int (nat (BS * V))"
      unfolding X by (simp add: zdiv_int)
    also have "int (nat L + nat (BS * V) - 1) = L + BS * V - 1" using assms(5) BV by simp
    also have "int (nat (BS * V)) = BS * V" using BV by simp
    finally show ?thesis .
  qed
  have XL: "L \<le> uint ?X * (BS * V)" unfolding Xi by (rule ceil_mult_ge [OF BV])
  have Xup: "uint ?X * (BS * V) < L + BS * V"
  proof -
    have "(L + BS * V - 1) div (BS * V) * (BS * V)
        = (L + BS * V - 1) - (L + BS * V - 1) mod (BS * V)" by (simp add: minus_mod_eq_div_mult)
    moreover have "0 \<le> (L + BS * V - 1) mod (BS * V)" using BV by simp
    ultimately show ?thesis unfolding Xi by linarith
  qed
  have X0: "0 < uint ?X"
  proof (rule ccontr)
    assume "\<not> 0 < uint ?X"
    moreover have "0 \<le> uint ?X" by simp
    ultimately have "uint ?X = 0" by linarith
    then show False using XL assms(5) by simp
  qed
  have e: "1 \<le> unat ?e" "unat ?e < 2 ^ 31"
    and ee: "unat ?e = nat rowLen div gcd (unat ?bws) (nat rowLen)"
    using expected_grid_size_unat [OF assms(3,4)] by blast+
  have sumo: "unat occupy + unat ?e \<le> 2 ^ 32" using e(2) assms(8) by simp
  have m: "unat ?e dvd unat ?M" "unat occupy \<le> unat ?M"
    using ceildiv_u_mult [OF e(1) sumo] by simp_all
  have "0 < unat occupy" using assms(7) by (simp add: unat_gt_0)
  then have "0 < unat ?M" using m(2) by linarith
  moreover have "uint ?M = int (unat ?M)" by simp
  ultimately have M0: "0 < uint ?M" by linarith
  have Mdvd: "rowLen dvd BS * uint ?M * V"
  proof -
    let ?r = "nat rowLen" and ?b = "nat (BS * V)"
    let ?g = "gcd ?b ?r"
    have "?b * (?r div ?g) = (?b div ?g) * ?r"
      by (metis div_mult_swap dvd_div_mult gcd_dvd1 gcd_dvd2 mult.commute)
    then have "?r dvd ?b * unat ?e" unfolding ee bw by simp
    then have "?r dvd ?b * unat ?M" using m(1) by (meson dvd_mult_left dvd_trans mult_dvd_mono dvd_refl)
    then have "int ?r dvd int (?b * unat ?M)" by (simp only: int_dvd_int_iff)
    moreover have "int ?r = rowLen" using assms(3) by simp
    moreover have "int (?b * unat ?M) = BS * uint ?M * V"
    proof -
      have "int (?b * unat ?M) = int ?b * int (unat ?M)" by (rule of_nat_mult)
      also have "int ?b = BS * V" using BV by simp
      also have "int (unat ?M) = uint ?M" by simp
      finally show ?thesis by (simp only: ac_simps)
    qed
    ultimately show ?thesis by (simp only:)
  qed
  have gsd: "gs = uint (min ?X ?M)" by (simp add: gs_def vecRows_gridSize_def)
  have cases: "gs = uint ?X \<or> (gs = uint ?M \<and> uint ?M \<le> uint ?X)"
    unfolding gsd by (auto simp: min_def word_le_def)
  show "0 < gs" using cases X0 M0 by auto
  show "A \<le> BS * gs \<or> rowLen dvd BS * gs * V"
  proof (cases "gs = uint ?X")
    case True
    have "A * V \<le> (BS * gs) * V" using XL assms(9) True by (simp add: algebra_simps)
    then have "A \<le> BS * gs" using assms(2) by (simp add: mult_le_cancel_right)
    then show ?thesis by simp
  next
    case False
    then have "gs = uint ?M" using cases by simp
    then show ?thesis using Mdvd by simp
  qed
  have "gs \<le> uint ?X" using cases by auto
  then have "gs * (BS * V) \<le> uint ?X * (BS * V)" using BV by (intro mult_right_mono) simp_all
  then show "BS * gs * V < L + BS * V" using Xup by (simp add: algebra_simps)
qed

lemma matrixLinewiseVecRows_ok:
  fixes shm :: "int \<Rightarrow> 'a"
  assumes "0 < sz" "0 < V" "W = V * sz" "sz dvd inA" "sz dvd outA" "inA mod W = outA mod W"
    and "0 < rowLen" "rowLen < 2 ^ 31" "0 < BS" "occupy \<noteq> 0" "unat occupy < 2 ^ 31"
    and small: "2 * (rowLen * nRows) + BS * V \<le> 2147483648"
    and W: "W \<le> 2 ^ 28"
    and good: "roundUp W inA \<le> inA + rowLen * nRows * sz"
  shows "\<exists>tr. exec_stream sz op src vecs shm (matrixLinewiseVecRows W BS sz occupy inA rowLen nRows) = Some tr
      \<and> trace_ok sz outA inA (rowLen * nRows) rowLen (rows_result rowLen op src vecs)
           {0..<rowLen * nRows} tr"
proof -
  let ?L = "rowLen * nRows"
  let ?f = "rows_result rowLen op src vecs"
  define off where "off = alignedOff_of W sz inA"
  define end' where "end' = alignedEnd_of W sz inA ?L"
  note af = alignment_facts [OF assms(1,2,3,4,6) good, folded off_def end'_def]
  from af(7) obtain A where A: "0 \<le> A" "end' = off + A * V" by blast
  have len: "end' - off = A * V" using A(2) by simp
  have WV: "W sdiv sz = V"
    using sdiv_smod_nonneg(1) [of W sz] assms(1,2,3) by simp
  have M: "V \<le> MaxOffset_of W" "0 < MaxOffset_of W" "MaxOffset_of W \<le> 2 ^ 28"
  proof -
    have "V * 1 \<le> V * sz" using assms(1,2) by (intro mult_left_mono) simp_all
    then show "V \<le> MaxOffset_of W" using assms(3) by (simp add: MaxOffset_of_def)
    show "0 < MaxOffset_of W" by (simp add: MaxOffset_of_def WarpSize_def)
    show "MaxOffset_of W \<le> 2 ^ 28" using W by (simp add: MaxOffset_of_def WarpSize_def)
  qed
  define gs where "gs = uint (vecRows_gridSize BS V occupy rowLen ?L)"
  define main where "main = (if 0 < A * V then [RowsMain W BS gs off off rowLen (A * V)] else [])"
  define tail where "tail = (if A * V < ?L then [RowsTail (MaxOffset_of W) off end' rowLen ?L] else [])"
  have ls: "matrixLinewiseVecRows W BS sz occupy inA rowLen nRows = main @ tail"
    unfolding matrixLinewiseVecRows_def Let_def totalLen_of_def WV main_def tail_def gs_def
      off_def [symmetric] end'_def [symmetric] len by simp
  have nil: "\<exists>tr. exec_stream sz op src vecs shm [] = Some tr \<and> trace_ok sz outA inA ?L rowLen ?f {} tr"
    by (simp add: exec_stream_Nil)
  have AV0: "0 \<le> A * V" using A(1) assms(2) by simp
  have AL: "A * V \<le> ?L" using af(1,3) A(2) by simp
  have t: "\<exists>tr. exec_stream sz op src vecs shm tail = Some tr
      \<and> trace_ok sz outA inA ?L rowLen ?f (if A * V < ?L then {0..<off} \<union> {end'..<?L} else {}) tr"
  proof (cases "A * V < ?L")
    case True
    have 1: "off \<le> MaxOffset_of W" using af(2) M(1) by simp
    have 2: "off \<le> ?L" "0 \<le> end'" using A(2) af(1,3) AV0 by simp_all
    have 3: "?L - end' \<le> MaxOffset_of W" using af(4) M(1) by simp
    from RowsTail_launch_ok [OF assms(1,7,4,5) af(1) 1 2 3 af(3) M(2,3),
        where op = op and src = src and vecs = vecs and shm = shm]
    have "\<exists>tr. exec_launch sz op src vecs shm (RowsTail (MaxOffset_of W) off end' rowLen ?L) = Some tr
      \<and> trace_ok sz outA inA ?L rowLen ?f ({0..<off} \<union> {end'..<?L}) tr" .
    from exec_stream_Cons [OF this, where ls = "[]" and ?S2.0 = "{}"] nil
    show ?thesis using True by (simp add: tail_def)
  next
    case False
    then show ?thesis using nil by (simp add: tail_def)
  qed
  have m: "\<exists>tr. exec_stream sz op src vecs shm (main @ tail) = Some tr
      \<and> trace_ok sz outA inA ?L rowLen ?f
           ((if 0 < A * V then {off..<off + A * V} else {})
            \<union> (if A * V < ?L then {0..<off} \<union> {end'..<?L} else {})) tr"
  proof (cases "0 < A * V")
    case True
    have A0: "0 < A" using True assms(2) A(1) by (simp add: zero_less_mult_iff)
    have L0: "0 < ?L" using True AL by simp
    have BV: "0 < BS * V" using assms(2,9) by simp
    have s32: "?L + BS * V \<le> 2 ^ 32" using small L0 by simp
    have r1: "1 \<le> rowLen" using assms(7) by simp
    note g = vecRows_gridSize_facts [OF assms(9,2) r1 assms(8) L0 s32 assms(10,11) AL, folded gs_def]
    have "BS * gs * 1 \<le> BS * gs * V" using g(1) assms(2,9) by (intro mult_left_mono) simp_all
    then have "BS * gs < ?L + BS * V" using g(3) by simp
    then have rng: "A + BS * gs < 2147483648"
    proof -
      have "A * 1 \<le> A * V" using A(1) assms(2) by (intro mult_left_mono) simp_all
      then have "A \<le> ?L" using AL by simp
      then show ?thesis using \<open>BS * gs < ?L + BS * V\<close> small by linarith
    qed
    have e: "off + A * V \<le> ?L" using af(3) A(2) by simp
    from RowsMain_launch_ok [OF assms(1,7,2) WV af(1) A0 assms(9) g(1) e af(5,6) g(2) rng,
        where op = op and src = src and vecs = vecs and shm = shm]
    have "\<exists>tr. exec_launch sz op src vecs shm (RowsMain W BS gs off off rowLen (A * V)) = Some tr
      \<and> trace_ok sz outA inA ?L rowLen ?f {off..<off + A * V} tr" .
    from exec_stream_Cons [OF this t]
    show ?thesis using True by (simp add: main_def)
  next
    case False
    then show ?thesis using t by (simp add: main_def)
  qed
  have U: "(if 0 < A * V then {off..<off + A * V} else {})
            \<union> (if A * V < ?L then {0..<off} \<union> {end'..<?L} else {}) = {0..<?L}"
    using af(1,3) A(2) AV0 by (auto split: if_splits)
  show ?thesis using m unfolding ls U .
qed

text \<open>
  The striped strategy is correct when nothing overflows. Let \<open>VecBytes\<close> be
  \<open>sizeof(Type)\<close> times a power of two (at most \<open>2^28\<close>), \<open>in\<close> and \<open>out\<close> aligned to
  \<open>sizeof(Type)\<close>, \<open>1 \<le> lineLen < 2^31\<close>, \<open>BlockSize \<ge> 1\<close> and the occupancy target not zero
  and below \<open>2^31\<close>. Suppose that \<open>2 * lineLen * nLines + BlockSize * VecElems \<le> 2^31\<close>, so
  that the loop variable of \<open>vectorRows\<close> does not leave the index type, and that the matrix
  reaches a boundary of the vector width that \<open>run\<close> dispatches with. Then the call with
  \<open>alongLines = true\<close> terminates, all its accesses are within the buffers and aligned, and
  afterwards \<open>out[i] = op(in[i], vecs[i % lineLen]...)\<close> for every offset \<open>i\<close> of the matrix,
  while \<open>out\<close> is unchanged elsewhere. The grid size enters through
  \<open>vecRows_gridSize_facts\<close>: one stripe covers the matrix, or the stripe is a multiple of
  the row length.
\<close>

lemma linewise_along_correct:
  assumes "0 < sz" "int sz dvd inA" "int sz dvd outA" "0 < lineLen" "lineLen < 2 ^ 31"
    and "0 < BS" "occupy \<noteq> 0" "unat occupy < 2 ^ 31"
    and "2 * (lineLen * nLines) + BS * 2 ^ k \<le> 2147483648"
    and "sz * 2 ^ k \<le> 2 ^ 28"
    and "roundUp (int (width (run (sz * 2 ^ k) BS sz occupy outA inA lineLen nLines True))) inA
           \<le> inA + lineLen * nLines * int sz"
  shows "\<exists>mem. linewise (sz * 2 ^ k) BS sz occupy outA inA lineLen nLines True op src vecs shm out0
           = Some (Inr mem)
      \<and> (\<forall>i. mem i = (if 0 \<le> i \<and> i < lineLen * nLines
                       then op (src i) (map (\<lambda>v. v (i mod lineLen)) vecs) else out0 i))"
proof -
  from run_dispatch [OF assms(1), of k BS occupy outA inA lineLen nLines True]
  obtain j where j: "j \<le> k"
      "width (run (sz * 2 ^ k) BS sz occupy outA inA lineLen nLines True) = sz * 2 ^ j"
      "launches (run (sz * 2 ^ k) BS sz occupy outA inA lineLen nLines True)
          = matrixLinewiseVecRows (int (sz * 2 ^ j)) BS (int sz) occupy inA lineLen nLines"
      "j = 0 \<or> areSameAlignOffsets (int (sz * 2 ^ j)) inA outA" by auto
  define V :: int where "V = 2 ^ j"
  have V: "0 < V" by (simp add: V_def)
  have W: "int (sz * 2 ^ j) = V * int sz" by (simp add: V_def)
  have al: "inA mod int (sz * 2 ^ j) = outA mod int (sz * 2 ^ j)"
  proof (cases "j = 0")
    case True
    then show ?thesis using assms(2,3) by (simp add: mod_eq_0_iff_dvd)
  next
    case False
    then show ?thesis using j(4) by (simp add: areSameAlignOffsets_def)
  qed
  have jk: "(2::nat) ^ j \<le> 2 ^ k" using j(1) by simp
  have "(2::int) ^ j \<le> 2 ^ k" using j(1) by simp
  then have "BS * V \<le> BS * 2 ^ k" unfolding V_def using assms(6) by (intro mult_left_mono) simp_all
  then have small: "2 * (lineLen * nLines) + BS * V \<le> 2147483648" using assms(9) by linarith
  have "sz * 2 ^ j \<le> sz * 2 ^ k" using jk by simp
  then have "sz * 2 ^ j \<le> 2 ^ 28" using assms(10) by linarith
  then have Wb: "int (sz * 2 ^ j) \<le> 2 ^ 28" by (metis of_nat_le_iff of_nat_numeral of_nat_power)
  have sz: "0 < int sz" using assms(1) by simp
  have good: "roundUp (int (sz * 2 ^ j)) inA \<le> inA + lineLen * nLines * int sz"
    using assms(11) unfolding j(2) .
  from matrixLinewiseVecRows_ok [OF sz V W assms(2,3) al assms(4,5,6,7,8) small Wb good,
      where op = op and src = src and vecs = vecs and shm = shm]
  obtain tr where tr: "exec_stream (int sz) op src vecs shm
        (launches (run (sz * 2 ^ k) BS sz occupy outA inA lineLen nLines True)) = Some tr"
      "trace_ok (int sz) outA inA (lineLen * nLines) (if True then lineLen else nLines)
         (rows_result lineLen op src vecs) {0..<lineLen * nLines} tr"
    unfolding j(3) by auto
  from linewise_of_trace_ok [OF tr, of out0]
  show ?thesis unfolding rows_result_def atLeastLessThan_iff .
qed

text \<open>
  The suppositions hold, for instance, at the input of the end-to-end scenario with \<open>in\<close>
  and \<open>out\<close> 4 bytes behind a multiple of 16, applied along the rows with a vector of 4
  elements.
\<close>

lemma linewise_along_correct_example:
  "\<exists>mem. linewise 16 256 4 5120 1028 4 4 3 True (\<lambda>a bs. a - sum_list bs) (\<lambda>i. i + 1)
            [\<lambda>i. 10 * (i + 1)] (\<lambda>_. 0) (\<lambda>_. 0) = Some (Inr mem)
      \<and> (\<forall>i. mem i = (if 0 \<le> i \<and> i < 4 * 3
                       then (\<lambda>a bs. a - sum_list bs) ((\<lambda>i. i + 1) i) (map (\<lambda>v. v (i mod 4)) [\<lambda>i. 10 * (i + 1)])
                       else (\<lambda>_. 0) i))"
proof -
  have w: "width (run 16 256 4 5120 1028 4 4 3 True) = 16" by code_simp
  have "roundUp (int (width (run (4 * 2 ^ 2) 256 4 5120 1028 4 4 3 True))) 4 \<le> 4 + 4 * 3 * int 4"
    using w by (simp add: roundUp_def)
  from linewise_along_correct [where sz = 4 and k = 2 and inA = 4 and outA = 1028 and lineLen = 4
      and nLines = 3 and BS = 256 and occupy = 5120 and op = "\<lambda>a bs. a - sum_list bs"
      and src = "\<lambda>i. i + 1" and vecs = "[\<lambda>i. 10 * (i + 1)]" and shm = "\<lambda>_. 0" and ?out0.0 = "\<lambda>_. 0",
      OF _ _ _ _ _ _ _ _ _ _ this]
  show ?thesis by simp
qed

section \<open>A small matrix inside one aligned window\<close>

text \<open>
  The host functions compute \<open>alignedOff\<close> from \<open>roundUp(in)\<close> and \<open>alignedEnd\<close> from
  \<open>roundDown(in + totalLen)\<close>. When the matrix lies strictly inside one window of
  \<open>VecBytes\<close> bytes, \<open>roundUp(in)\<close> is behind the end of the matrix and
  \<open>roundDown(in + totalLen)\<close> is before its start: \<open>alignedOff > totalLen\<close> and
  \<open>alignedEnd < 0\<close>. The boundary kernel then takes \<open>[0, alignedOff)\<close> for the head and
  \<open>[alignedEnd, totalLen)\<close> for the tail. The input below is a matrix of one row and one
  column of a 4-byte type with \<open>in\<close> at address 4 and \<open>out\<close> at address 1028 (both 4
  bytes behind a multiple of 16), \<open>VecBytes = 16\<close>, \<open>BlockSize = 256\<close>.
\<close>

text \<open>
  C6 at that input, for both strategies: no main kernel is launched, block 0 of the
  boundary kernel writes the offsets 0, 1, 2 and block 1 writes the offsets -1, 0. The
  two sets overlap and are not the set of the offsets of the matrix, which is \<open>{0}\<close>.
\<close>

theorem boundary_blocks_overlap:
  "launches (run 16 256 4 5120 1028 4 1 1 False) = [ColsTail 32 3 (- 1) 1 1]
   \<and> block_writes 4 (\<lambda>a bs. a - sum_list bs) (\<lambda>i. i + 1) [\<lambda>i. 10] (\<lambda>_. 0)
        (ColsTail 32 3 (- 1) 1 1) 0 = [0, 1, 2]
   \<and> block_writes 4 (\<lambda>a bs. a - sum_list bs) (\<lambda>i. i + 1) [\<lambda>i. 10] (\<lambda>_. 0)
        (ColsTail 32 3 (- 1) 1 1) 1 = [- 1, 0]
   \<and> launches (run 16 256 4 5120 1028 4 1 1 True) = [RowsTail 32 3 (- 1) 1 1]
   \<and> block_writes 4 (\<lambda>a bs. a - sum_list bs) (\<lambda>i. i + 1) [\<lambda>i. 10] (\<lambda>_. 0)
        (RowsTail 32 3 (- 1) 1 1) 0 = [0, 1, 2]
   \<and> block_writes 4 (\<lambda>a bs. a - sum_list bs) (\<lambda>i. i + 1) [\<lambda>i. 10] (\<lambda>_. 0)
        (RowsTail 32 3 (- 1) 1 1) 1 = [- 1, 0]"
  by code_simp

text \<open>
  C10 at that input: the head is \<open>[0, 3)\<close> and the tail is \<open>[-1, 1)\<close>, both shorter than
  the 32 threads of a block, and each thread of the boundary kernel writes at most one
  scalar; but the offset 0, the only element of the matrix, lies in the head and in the
  tail, and it is processed by two threads: thread 0 of block 0 and thread 1 of block 1.
\<close>

theorem boundary_element_two_threads:
  "launches (run 16 256 4 5120 1028 4 1 1 False) = [ColsTail 32 3 (- 1) 1 1]
   \<and> alignedOff_of 16 4 4 = 3 \<and> alignedEnd_of 16 4 4 (totalLen_of 1 1) = - 1
   \<and> MaxOffset_of 16 = 32
   \<and> writes_of (matrixLinewiseVecColsTailKernel (\<lambda>a bs. a - sum_list bs) (\<lambda>i. i + 1) [\<lambda>i. 10]
         3 (- 1) 1 1 0 0) = [0]
   \<and> writes_of (matrixLinewiseVecColsTailKernel (\<lambda>a bs. a - sum_list bs) (\<lambda>i. i + 1) [\<lambda>i. 10]
         3 (- 1) 1 1 1 1) = [0]
   \<and> filter (\<lambda>(b, t). 0 \<in> set (writes_of (matrixLinewiseVecColsTailKernel
                (\<lambda>a bs. a - sum_list bs) (\<lambda>i. i + 1) [\<lambda>i. 10] 3 (- 1) 1 1 b t)))
        (List.product [0, 1] [0..31]) = [(0, 0), (1, 1)]"
  by code_simp

section \<open>A large matrix\<close>

text \<open>
  \<open>matrixLinewiseVecCols\<close> computes \<open>elemsPerThread\<close> with \<open>raft::ceildiv<IdxType>\<close>, that
  is \<open>(alignedLen + b - 1) / b\<close> in the index type, for
  \<open>b = gs.x * VecElems * BlockSize\<close>. The input below is a matrix of 2097151 rows of 1024
  scalars of a 1-byte type, \<open>in\<close> at address \<open>2^32\<close> and \<open>out\<close> at address \<open>2^33\<close> (both
  multiples of 16), \<open>VecBytes = 16\<close>, \<open>BlockSize = 256\<close> and an occupancy target of 5120
  blocks (16 times 320 blocks, a device of 80 multiprocessors). Its length
  \<open>2147482624 = 2^31 - 1024\<close> fits the index type; the whole matrix is aligned,
  \<open>gs.x = 5120\<close> and \<open>b = 20971520\<close>. The sum \<open>alignedLen + b - 1 = 2168454143\<close> does not
  fit the index type: it wraps to \<open>-2126513153\<close>, the quotient is \<open>-101\<close> and
  \<open>elemsPerThread = -1616\<close>. With a negative \<open>elemsPerThread\<close> the end of the range of
  every thread of the main kernel lies before its start, so no thread enters the loop of
  \<open>vectorCols\<close>: the kernel writes nothing, and no other kernel is launched.
\<close>

lemma vectorCols_no_work:
  assumes "\<not> pos < e"
  shows "map_option trace (vectorCols VecElems op src vecs pos e rowLen rowDiv0 rowMod0) = Some []"
  unfolding vectorCols_def using assms by (subst vectorCols_loop.simps) simp

lemma large_matrix_launches:
  "launches (run 16 256 1 5120 8589934592 4294967296 1024 2097151 False)
     = [ColsMain 16 256 5120 0 1024 2147482624 (- 1616)]"
  by code_simp

lemma ColsMain_large_no_work:
  assumes "b \<in> set [0..5120 - 1]" "t \<in> set [0..256 - 1]"
  shows "map_option trace (matrixLinewiseVecColsMainKernel 16 256 op src vecs
            0 1024 2147482624 (- 1616) b t) = Some []"
proof -
  have b: "0 \<le> b" "b \<le> 5119" and t: "0 \<le> t" "t \<le> 255" using assms by simp_all
  define g where "g = b * 256 + t - t mod 32"
  define x where "x = - 1616 * g + t mod 32 * 16"
  have tm: "0 \<le> t mod 32" "t mod 32 \<le> t" "t mod 32 < 32"
    using t(1) by (simp_all add: zmod_le_nonneg_dividend)
  have g: "0 \<le> g" "g \<le> 1310719" using b t tm by (simp_all add: g_def)
  have x: "- 2118121904 \<le> x" "x \<le> 496" using g tm by (simp_all add: x_def)
  have ix: "idx x = x" using x by (intro idx_id) simp_all
  have iy: "idx (x + - 1616 * 32) = x - 51712" using x by (subst idx_id) simp_all
  have "\<not> x < min (x - 51712) 2147482624" by simp
  from vectorCols_no_work [OF this]
  show ?thesis
    unfolding matrixLinewiseVecColsMainKernel_def Pow2_mod_def WarpSize_def Let_def
    using ix iy by (simp add: x_def g_def)
qed

lemma large_launch_no_work:
  "exec_launch 1 op src vecs shm (ColsMain 16 256 5120 0 1024 2147482624 (- 1616)) = Some []"
proof -
  have blk: "exec_block 1 op src vecs shm (ColsMain 16 256 5120 0 1024 2147482624 (- 1616)) b = Some []"
    if "b \<in> set [0..5120 - 1]" for b
  proof -
    have "those (map (\<lambda>t. map_option trace (matrixLinewiseVecColsMainKernel 16 256 op src vecs
            0 1024 2147482624 (- 1616) b t)) [0..256 - 1]) = Some (map (\<lambda>t. []) [0..256 - 1])"
      by (rule those_map_Some) (rule ColsMain_large_no_work [OF that])
    then show ?thesis by (simp add: concat_map_Nil signed_divide_int_def)
  qed
  have "those (map (exec_block 1 op src vecs shm (ColsMain 16 256 5120 0 1024 2147482624 (- 1616)))
          [0..5120 - 1]) = Some (map (\<lambda>b. []) [0..5120 - 1])"
    by (rule those_map_Some) (rule blk)
  then show ?thesis unfolding exec_launch_def gridDim_of.simps by (simp add: concat_map_Nil)
qed

text \<open>
  At that input the call completes without an access to memory and leaves \<open>out\<close> as it
  was, whatever the operator and the vectors are.
\<close>

lemma linewise_large_unwritten:
  "linewise 16 256 1 5120 8589934592 4294967296 1024 2097151 False op src vecs shm out0 = Some (Inr out0)"
  unfolding linewise_def large_matrix_launches
  by (simp add: exec_stream_def large_launch_no_work List.map_filter_simps)

text \<open>
  C1 at that input, with the subtraction for \<open>op\<close>, \<open>in[i] = i + 1\<close>, the vector
  \<open>vec[j] = 10 * (j + 1)\<close> and \<open>out\<close> filled with 7 before the call: the single launch is
  the main kernel with \<open>elemsPerThread = -1616\<close>, the call completes, and \<open>out[0..3]\<close> still
  hold 7, not \<open>op(in[i], vec[i / rowLen]) = -9, -8, -7, -6\<close>.
\<close>

theorem linewise_large_matrix_unwritten:
  "totalLen_of 1024 2097151 = 2147482624 \<and> (2147482624 :: int) < 2 ^ 31
   \<and> launches (run 16 256 1 5120 8589934592 4294967296 1024 2097151 False)
       = [ColsMain 16 256 5120 0 1024 2147482624 (- 1616)]
   \<and> read_out 4 (linewise 16 256 1 5120 8589934592 4294967296 1024 2097151 False
         (\<lambda>a bs. a - sum_list bs) (\<lambda>i. i + 1) [\<lambda>i. 10 * (i + 1)] (\<lambda>_. 0) (\<lambda>_. 7))
       = Some (Inr [7, 7, 7, 7])
   \<and> map (\<lambda>i. (\<lambda>a bs. a - sum_list bs) ((\<lambda>i. i + 1) i)
                (map (\<lambda>v. v (i div 1024)) [\<lambda>i. 10 * (i + 1)])) [0, 1, 2, 3]
       = [- 9, - 8, - 7, - 6 :: int]"
proof (intro conjI)
  show "totalLen_of 1024 2097151 = 2147482624" by (simp add: totalLen_of_def)
  show "(2147482624 :: int) < 2 ^ 31" by simp
  show "launches (run 16 256 1 5120 8589934592 4294967296 1024 2097151 False)
       = [ColsMain 16 256 5120 0 1024 2147482624 (- 1616)]"
    by (rule large_matrix_launches)
  show "read_out 4 (linewise 16 256 1 5120 8589934592 4294967296 1024 2097151 False
         (\<lambda>a bs. a - sum_list bs) (\<lambda>i. i + 1) [\<lambda>i. 10 * (i + 1)] (\<lambda>_. 0) (\<lambda>_. 7))
       = Some (Inr [7, 7, 7, 7 :: int])"
    unfolding linewise_large_unwritten read_out_def by code_simp
  show "map (\<lambda>i. (\<lambda>a bs. a - sum_list bs) ((\<lambda>i. i + 1) i)
                (map (\<lambda>v. v (i div 1024)) [\<lambda>i. 10 * (i + 1)])) [0, 1, 2, 3]
       = [- 9, - 8, - 7, - 6 :: int]"
    by simp
qed

text \<open>
  C8 at that input, with the identity operator \<open>op(a, b...) = a\<close>, \<open>in[i] = i + 1\<close> and
  \<open>out\<close> filled with 7 before the call: the call completes and \<open>out[0..3]\<close> still hold 7,
  not \<open>in[0..3] = 1, 2, 3, 4\<close>.
\<close>

theorem linewise_identity_large_matrix_unwritten:
  "launches (run 16 256 1 5120 8589934592 4294967296 1024 2097151 False)
       = [ColsMain 16 256 5120 0 1024 2147482624 (- 1616)]
   \<and> read_out 4 (linewise 16 256 1 5120 8589934592 4294967296 1024 2097151 False
         (\<lambda>a bs. a) (\<lambda>i. i + 1) [\<lambda>i. 10 * (i + 1)] (\<lambda>_. 0) (\<lambda>_. 7))
       = Some (Inr [7, 7, 7, 7])
   \<and> map (\<lambda>i. i + 1) [0, 1, 2, 3] = [1, 2, 3, 4 :: int]"
proof (intro conjI)
  show "launches (run 16 256 1 5120 8589934592 4294967296 1024 2097151 False)
       = [ColsMain 16 256 5120 0 1024 2147482624 (- 1616)]"
    by (rule large_matrix_launches)
  show "read_out 4 (linewise 16 256 1 5120 8589934592 4294967296 1024 2097151 False
         (\<lambda>a bs. a) (\<lambda>i. i + 1) [\<lambda>i. 10 * (i + 1)] (\<lambda>_. 0) (\<lambda>_. 7))
       = Some (Inr [7, 7, 7, 7 :: int])"
    unfolding linewise_large_unwritten read_out_def by code_simp
  show "map (\<lambda>i. i + 1) [0, 1, 2, 3] = [1, 2, 3, 4 :: int]" by simp
qed

section \<open>The end-to-end scenario\<close>

text \<open>
  C9. \<open>rowLen = 4\<close>, \<open>nRows = 3\<close>, the matrix \<open>[[1,2,3,4],[5,6,7,8],[9,10,11,12]]\<close>
  (\<open>in[i] = i + 1\<close>), the vector \<open>[10,20,30]\<close> (\<open>vec[j] = 10 * (j + 1)\<close>), \<open>op\<close> the
  subtraction and \<open>alongLines = false\<close>, for a 4-byte type with \<open>VecBytes = 16\<close> and
  \<open>BlockSize = 256\<close>: for each of the sixteen combinations of the alignments of \<open>out\<close> and
  \<open>in\<close> modulo 16, the call completes without a fault and \<open>out\<close> holds
  \<open>[[-9,-8,-7,-6],[-15,-14,-13,-12],[-21,-20,-19,-18]]\<close>.
\<close>

theorem linewise_scenario:
  "list_all (\<lambda>(outOff, inOff).
       read_out 12 (linewise 16 256 4 5120 (1024 + outOff) inOff 4 3 False
           (\<lambda>a bs. a - sum_list bs) (\<lambda>i. i + 1) [\<lambda>i. 10 * (i + 1)] (\<lambda>_. 0) (\<lambda>_. 0))
         = Some (Inr [- 9, - 8, - 7, - 6, - 15, - 14, - 13, - 12, - 21, - 20, - 19, - 18]))
     (List.product [0, 4, 8, 12] [0, 4, 8, 12])"
  by code_simp

end
